theory Spec2Isabelle
  imports Main
begin

section \<open>Python strings\<close>

text \<open>
  A Python \<open>str\<close> is a sequence of Unicode code points, so a string is a list of code
  points and \<open>length\<close> counts what \<open>len\<close> counts. ASCII literals are written with
  \<open>ascii\<close>.
\<close>

type_synonym cp = nat
type_synonym str = "cp list"

definition ascii :: "string \<Rightarrow> str" where
  "ascii s = map of_char s"

text \<open>
  \<open>str.isspace\<close>, \<open>str.strip()\<close> and the pattern \<open>\s\<close> use the same set of
  code points: the ASCII controls 9 to 13 and 28 to 31, the space, U+0085, U+00A0,
  U+1680, U+2000 to U+200A, U+2028, U+2029, U+202F, U+205F and U+3000.
\<close>

definition is_space :: "cp \<Rightarrow> bool" where
  "is_space c =
     ((9 \<le> c \<and> c \<le> 13) \<or> (28 \<le> c \<and> c \<le> 32) \<or> c = 133 \<or> c = 160 \<or> c = 5760 \<or>
      (8192 \<le> c \<and> c \<le> 8202) \<or> c = 8232 \<or> c = 8233 \<or> c = 8239 \<or> c = 8287 \<or>
      c = 12288)"

text \<open>
  The classes \<open>\d\<close> and \<open>\w\<close> and the method \<open>str.lower()\<close> read the Unicode
  character database of the interpreter. On ASCII they are fixed and written out
  here; beyond ASCII the database is a parameter of the model: which code points are
  decimal digits, which are alphanumeric, and the lower-casing of the code point at
  an index of a string (an index, since a capital sigma is lowered by its context).
  Whatever the database, a whitespace code point is neither a digit nor alphanumeric,
  and a decimal digit is alphanumeric.
\<close>

record ucd =
  ucd_decimal :: "cp \<Rightarrow> bool"
  ucd_alnum :: "cp \<Rightarrow> bool"
  ucd_lower :: "str \<Rightarrow> nat \<Rightarrow> str"

definition ascii_db :: ucd where
  "ascii_db = \<lparr>ucd_decimal = (\<lambda>c. False), ucd_alnum = (\<lambda>c. False),
                ucd_lower = (\<lambda>s i. [s ! i])\<rparr>"

definition is_digit :: "ucd \<Rightarrow> cp \<Rightarrow> bool" where
  "is_digit U c =
     (if c < 128 then 48 \<le> c \<and> c \<le> 57 else \<not> is_space c \<and> ucd_decimal U c)"

definition is_word :: "ucd \<Rightarrow> cp \<Rightarrow> bool" where
  "is_word U c =
     (if c < 128
      then (48 \<le> c \<and> c \<le> 57) \<or> (65 \<le> c \<and> c \<le> 90) \<or> c = 95 \<or> (97 \<le> c \<and> c \<le> 122)
      else \<not> is_space c \<and> (ucd_decimal U c \<or> ucd_alnum U c))"

fun lower_from :: "ucd \<Rightarrow> str \<Rightarrow> nat \<Rightarrow> str \<Rightarrow> str" where
  "lower_from U whole i [] = []"
| "lower_from U whole i (c # cs) =
     (if c < 128 then [if 65 \<le> c \<and> c \<le> 90 then c + 32 else c] else ucd_lower U whole i)
     @ lower_from U whole (Suc i) cs"

definition lower :: "ucd \<Rightarrow> str \<Rightarrow> str" where
  "lower U s = lower_from U s 0 s"

definition strip :: "str \<Rightarrow> str" where
  "strip s = rev (dropWhile is_space (rev (dropWhile is_space s)))"

text \<open>The operator \<open>in\<close> on strings: \<open>pat in s\<close>.\<close>

fun contains :: "str \<Rightarrow> str \<Rightarrow> bool" where
  "contains pat [] = (pat = [])"
| "contains pat (c # cs) = (take (length pat) (c # cs) = pat \<or> contains pat cs)"

section \<open>The regular expressions of module re\<close>

text \<open>
  The patterns of the program use literals, character classes, \<open>x*\<close>, \<open>x+\<close> and
  \<open>x*?\<close> on a single-character item, \<open>r?\<close>, alternation, groups, \<open>^\<close> (with and
  without MULTILINE) and \<open>\b\<close>. A character class is matched against one code point;
  \<open>LitI\<close> is a lower-case ASCII letter of a pattern compiled with IGNORECASE (the
  letter, its capital and, for i, U+0130 and U+0131).
\<close>

datatype cclass =
    Lit cp
  | LitI cp
  | Dot
  | Space
  | Digit
  | OneOf "cp list"

fun in_class :: "ucd \<Rightarrow> cclass \<Rightarrow> cp \<Rightarrow> bool" where
  "in_class U (Lit x) c = (c = x)"
| "in_class U (LitI x) c = (c = x \<or> c + 32 = x \<or> (x = 105 \<and> (c = 304 \<or> c = 305)))"
| "in_class U Dot c = (c \<noteq> 10)"
| "in_class U Space c = is_space c"
| "in_class U Digit c = is_digit U c"
| "in_class U (OneOf xs) c = (c \<in> set xs)"

datatype regex =
    Eps
  | Atom cclass
  | Star cclass
  | LazyStar cclass
  | Seq regex regex
  | Alt regex regex
  | Group nat regex
  | Bol
  | BolM
  | WordB

definition seq :: "regex list \<Rightarrow> regex" where
  "seq rs = foldr Seq rs Eps"

definition alt :: "regex list \<Rightarrow> regex" where
  "alt rs = foldr Alt (butlast rs) (last rs)"

definition lit :: "string \<Rightarrow> regex" where
  "lit s = seq (map (\<lambda>c. Atom (Lit (of_char c))) s)"

definition liti :: "string \<Rightarrow> regex" where
  "liti s = seq (map (\<lambda>c. Atom (LitI (of_char c))) s)"

definition plus :: "cclass \<Rightarrow> regex" where
  "plus k = Seq (Atom k) (Star k)"

definition opt :: "regex \<Rightarrow> regex" where
  "opt r = Alt r Eps"

text \<open>
  A matcher state is the code point before the position (\<open>None\<close> at the start of the
  string), the rest of the string, and the groups captured so far. \<open>rmatch\<close> lists the
  states in which a match of the pattern from a state can end, in the order in which
  the backtracking matcher of \<open>re\<close> tries them: a greedy star the longest first, a
  lazy star the shortest first, an alternation from left to right. The match that
  \<open>re\<close> returns at a position is the head of the list.
\<close>

type_synonym groups = "(nat \<times> str) list"
type_synonym mstate = "cp option \<times> str \<times> groups"

fun star_greedy :: "ucd \<Rightarrow> cclass \<Rightarrow> cp option \<Rightarrow> str \<Rightarrow> (cp option \<times> str) list" where
  "star_greedy U k p [] = [(p, [])]"
| "star_greedy U k p (c # cs) =
     (if in_class U k c then star_greedy U k (Some c) cs @ [(p, c # cs)] else [(p, c # cs)])"

fun star_lazy :: "ucd \<Rightarrow> cclass \<Rightarrow> cp option \<Rightarrow> str \<Rightarrow> (cp option \<times> str) list" where
  "star_lazy U k p [] = [(p, [])]"
| "star_lazy U k p (c # cs) =
     (p, c # cs) # (if in_class U k c then star_lazy U k (Some c) cs else [])"

definition word_before :: "ucd \<Rightarrow> cp option \<Rightarrow> bool" where
  "word_before U p = (case p of None \<Rightarrow> False | Some c \<Rightarrow> is_word U c)"

definition word_after :: "ucd \<Rightarrow> str \<Rightarrow> bool" where
  "word_after U s = (case s of [] \<Rightarrow> False | c # cs \<Rightarrow> is_word U c)"

fun rmatch :: "ucd \<Rightarrow> regex \<Rightarrow> mstate \<Rightarrow> mstate list" where
  "rmatch U Eps st = [st]"
| "rmatch U (Atom k) (p, s, g) =
     (case s of [] \<Rightarrow> [] | c # cs \<Rightarrow> if in_class U k c then [(Some c, cs, g)] else [])"
| "rmatch U (Star k) (p, s, g) = map (\<lambda>(p', s'). (p', s', g)) (star_greedy U k p s)"
| "rmatch U (LazyStar k) (p, s, g) = map (\<lambda>(p', s'). (p', s', g)) (star_lazy U k p s)"
| "rmatch U (Seq r1 r2) st = concat (map (rmatch U r2) (rmatch U r1 st))"
| "rmatch U (Alt r1 r2) st = rmatch U r1 st @ rmatch U r2 st"
| "rmatch U (Group n r) (p, s, g) =
     map (\<lambda>(p', s', g'). (p', s', (n, take (length s - length s') s) # g'))
       (rmatch U r (p, s, g))"
| "rmatch U Bol (p, s, g) = (if p = None then [(p, s, g)] else [])"
| "rmatch U BolM (p, s, g) = (if p = None \<or> p = Some 10 then [(p, s, g)] else [])"
| "rmatch U WordB (p, s, g) = (if word_before U p \<noteq> word_after U s then [(p, s, g)] else [])"

definition re_match :: "ucd \<Rightarrow> regex \<Rightarrow> cp option \<Rightarrow> str \<Rightarrow> mstate option" where
  "re_match U r p s = (case rmatch U r (p, s, []) of [] \<Rightarrow> None | m # ms \<Rightarrow> Some m)"

text \<open>
  A replacement template is text and group references (\<open>\1\<close>, \<open>\2\<close>).
\<close>

datatype rpart = Txt str | Ref nat

fun expand1 :: "groups \<Rightarrow> rpart \<Rightarrow> str" where
  "expand1 g (Txt s) = s"
| "expand1 g (Ref n) = (case map_of g n of None \<Rightarrow> [] | Some s \<Rightarrow> s)"

definition expand :: "rpart list \<Rightarrow> groups \<Rightarrow> str" where
  "expand t g = concat (map (expand1 g) t)"

text \<open>
  \<open>re.sub(pattern, repl, string)\<close>: the string is scanned from the left; where the
  pattern matches, the expanded template stands for the match and the scan goes on
  after it; where it does not, the code point is copied. No pattern of this program
  matches the empty string, so the branch for an empty match (the template, then the
  next code point copied) is never taken by them.
\<close>

function re_sub_from :: "ucd \<Rightarrow> regex \<Rightarrow> rpart list \<Rightarrow> cp option \<Rightarrow> str \<Rightarrow> str" where
  "re_sub_from U r t p [] =
     (case re_match U r p [] of None \<Rightarrow> [] | Some (p', s', g) \<Rightarrow> expand t g)"
| "re_sub_from U r t p (c # cs) =
     (case re_match U r p (c # cs) of
        None \<Rightarrow> c # re_sub_from U r t (Some c) cs
      | Some (p', s', g) \<Rightarrow>
          if length s' < Suc (length cs) then expand t g @ re_sub_from U r t p' s'
          else expand t g @ c # re_sub_from U r t (Some c) cs)"
  by pat_completeness auto
termination
  by (relation "measure (\<lambda>(U, r, t, p, s). length s)") auto

definition re_sub :: "ucd \<Rightarrow> regex \<Rightarrow> rpart list \<Rightarrow> str \<Rightarrow> str" where
  "re_sub U r t s = re_sub_from U r t None s"

text \<open>\<open>re.search(pattern, string)\<close>: the first position with a match, if any.\<close>

fun re_search_from :: "ucd \<Rightarrow> regex \<Rightarrow> cp option \<Rightarrow> str \<Rightarrow> mstate option" where
  "re_search_from U r p [] = re_match U r p []"
| "re_search_from U r p (c # cs) =
     (case re_match U r p (c # cs) of
        None \<Rightarrow> re_search_from U r (Some c) cs
      | Some m \<Rightarrow> Some m)"

definition re_search :: "ucd \<Rightarrow> regex \<Rightarrow> str \<Rightarrow> mstate option" where
  "re_search U r s = re_search_from U r None s"

section \<open>agent\_patched.py: clean\_response\_for\_speech\<close>

text \<open>The patterns of \<open>clean_response_for_speech\<close>, in the order of the source.\<close>

definition re_bold :: regex where
  "re_bold = seq [lit ''**'', Group 1 (LazyStar Dot), lit ''**'']"

definition re_italic :: regex where
  "re_italic = seq [lit ''*'', Group 1 (LazyStar Dot), lit ''*'']"

definition re_underline :: regex where
  "re_underline = seq [lit ''_'', Group 1 (LazyStar Dot), lit ''_'']"

definition re_code :: regex where
  "re_code = seq [Atom (Lit 96), Group 1 (LazyStar Dot), Atom (Lit 96)]"

definition re_numbered_nl :: regex where
  "re_numbered_nl = seq [Atom (Lit 10), Group 1 (plus Digit), lit ''. '']"

definition re_numbered_start :: regex where
  "re_numbered_start = seq [Bol, Group 1 (plus Digit), lit ''. '']"

text \<open>The bullet of the source is U+2022.\<close>

definition bullet_marks :: cclass where
  "bullet_marks = OneOf [45, 8226, 42, 43]"

definition re_bullet_line :: regex where
  "re_bullet_line = seq [BolM, Star Space, Atom bullet_marks, Star Space]"

definition re_bullet_nl :: regex where
  "re_bullet_nl = seq [Atom (Lit 10), Star Space, Atom bullet_marks, Star Space]"

definition re_note :: regex where
  "re_note = seq [WordB, liti ''note'', lit '':'', Star Space]"

definition re_important :: regex where
  "re_important = seq [WordB, liti ''important'', lit '':'', Star Space]"

definition re_remember :: regex where
  "re_remember = seq [WordB, liti ''remember'', lit '':'', Star Space]"

text \<open>
  The first set of removed symbols: \<open>#$%&@^~|[]{}()<>\<close>, the backquote (96), the
  backslash (92), the double quote (34) and the single quote (39).
\<close>

definition symbol_set :: cclass where
  "symbol_set = OneOf (ascii ''#$%&@^'' @ [96] @ ascii ''~|'' @ [92] @ ascii ''[]{}()<>'' @ [34, 39])"

definition punct_set :: cclass where
  "punct_set = OneOf (ascii ''+=!?.,;:'')"

definition re_slash_ws :: regex where
  "re_slash_ws = seq [Star Space, lit ''/'', Star Space]"

definition re_slash :: regex where
  "re_slash = lit ''/''"

definition re_hyphen :: regex where
  "re_hyphen = seq [Star Space, lit ''-'', Star Space]"

definition re_units :: regex where
  "re_units =
     seq [WordB, Group 1 (plus Digit), Star Space,
          Group 2 (alt [Seq (lit ''hour'') (opt (lit ''s'')), Seq (lit ''day'') (opt (lit ''s'')),
                        Seq (lit ''week'') (opt (lit ''s'')), Seq (lit ''month'') (opt (lit ''s'')),
                        Seq (lit ''year'') (opt (lit ''s''))]),
          WordB]"

definition re_percent :: regex where
  "re_percent = seq [WordB, Group 1 (plus Digit), Star Space, lit ''%'']"

definition re_newlines :: regex where
  "re_newlines = plus (Lit 10)"

definition re_spaces :: regex where
  "re_spaces = plus Space"

definition clean_response_for_speech :: "ucd \<Rightarrow> str \<Rightarrow> str" where
  "clean_response_for_speech U text0 =
     (let text1 = re_sub U re_bold [Ref 1] text0;
          text2 = re_sub U re_italic [Ref 1] text1;
          text3 = re_sub U re_underline [Ref 1] text2;
          text4 = re_sub U re_code [Ref 1] text3;
          text5 = re_sub U re_numbered_nl [Txt (ascii ''. Next, '')] text4;
          text6 = re_sub U re_numbered_start [Txt (ascii ''First, '')] text5;
          text7 = re_sub U re_bullet_line [] text6;
          text8 = re_sub U re_bullet_nl [Txt (ascii ''. Also, '')] text7;
          text9 = re_sub U re_note [Txt (ascii ''Please note that '')] text8;
          text10 = re_sub U re_important [Txt (ascii ''This is important: '')] text9;
          text11 = re_sub U re_remember [Txt (ascii ''Remember that '')] text10;
          text12 = re_sub U (Atom symbol_set) [] text11;
          text13 = re_sub U (Atom punct_set) [] text12;
          text14 = re_sub U re_slash_ws [Txt (ascii '' or '')] text13;
          text15 = re_sub U re_slash [Txt (ascii '' or '')] text14;
          text16 = re_sub U re_hyphen [Txt (ascii '' '')] text15;
          text17 = re_sub U re_units [Ref 1, Txt (ascii '' ''), Ref 2] text16;
          text18 = re_sub U re_percent [Ref 1, Txt (ascii '' percent'')] text17;
          text19 = re_sub U re_newlines [Txt (ascii '' '')] text18;
          text20 = re_sub U re_spaces [Txt (ascii '' '')] text19
      in strip text20)"

section \<open>rag\_engine.py\<close>

text \<open>
  What a call can raise: an instance of \<open>Exception\<close> (or of a subclass) with its
  message, or one of the exceptions that derive from \<open>BaseException\<close> only. A handler
  \<open>except Exception\<close> catches the first kind and lets the others pass.
\<close>

datatype raised = Exception str | KeyboardInterrupt | SystemExit

type_synonym doc = str
type_synonym chunk = str

datatype event =
    LogInfo
  | LogWarning
  | LogError
  | IndexBuilt nat
  | Persist
  | IndexFromVectorStore
  | QueryEngineBuilt
  | Query str

text \<open>
  An engine object: its identity (the number of engines constructed before it) and the
  nodes of its index.
\<close>

record engine =
  eid :: nat
  index :: "chunk list"

text \<open>
  The state the module works on: the items of the Chroma collection
  \<open>university_data\<close> under \<open>./chromadb\<close>, the documents that the directory reader
  loads from \<open>./Nexi Data\<close> (\<open>None\<close> when the folder does not exist), the global
  \<open>_rag_engine\<close>, the number of engine objects constructed so far and the calls made
  to the logger and to the index library, in order.
\<close>

record world =
  collection :: "chunk list"
  data_dir :: "doc list option"
  rag_engine :: "engine option"
  constructed :: nat
  events :: "event list"

definition emit :: "event list \<Rightarrow> world \<Rightarrow> world" where
  "emit es w = w\<lparr>events := events w @ es\<rparr>"

text \<open>
  \<open>_ingest_documents\<close>. The sentence splitter of the index library is a parameter:
  the chunks it cuts a document into. Building the index from documents adds their
  chunks to the collection behind the storage context.
\<close>

definition ingest_documents :: "(doc \<Rightarrow> chunk list) \<Rightarrow> world \<Rightarrow> chunk list \<times> world" where
  "ingest_documents splitter w =
     (case data_dir w of
        None \<Rightarrow> ([], emit [LogWarning, IndexBuilt 0] w)
      | Some documents \<Rightarrow>
          (let nodes = concat (map splitter documents);
               w1 = emit [LogInfo, LogInfo, IndexBuilt (length documents)] w;
               w2 = w1\<lparr>collection := collection w1 @ nodes\<rparr>
           in (collection w2, emit [Persist, LogInfo] w2)))"

text \<open>\<open>UniversityRAGEngine.__init__\<close>.\<close>

definition UniversityRAGEngine :: "(doc \<Rightarrow> chunk list) \<Rightarrow> world \<Rightarrow> engine \<times> world" where
  "UniversityRAGEngine splitter w =
     (let w0 = emit [LogInfo] (w\<lparr>constructed := Suc (constructed w)\<rparr>);
          (ix, w1) =
            (if length (collection w0) = 0
             then ingest_documents splitter (emit [LogInfo] w0)
             else (collection w0, emit [LogInfo, IndexFromVectorStore] w0))
      in (\<lparr>eid = constructed w, index = ix\<rparr>, emit [QueryEngineBuilt, LogInfo] w1))"

text \<open>
  \<open>UniversityRAGEngine.get_rag_answer\<close>. The query engine is a parameter: what
  \<open>str(self.query_engine.query(query))\<close> returns or raises on the engine's index.
\<close>

type_synonym query_engine = "chunk list \<Rightarrow> str \<Rightarrow> raised + str"

definition engine_get_rag_answer ::
    "query_engine \<Rightarrow> engine \<Rightarrow> str \<Rightarrow> world \<Rightarrow> (raised + str) \<times> world" where
  "engine_get_rag_answer qe self query w =
     (if strip query = [] then (Inr (ascii ''Please ask a valid question.''), w)
      else
        (let w1 = emit [LogInfo, Query query] w in
         case qe (index self) query of
           Inr response \<Rightarrow> (Inr response, w1)
         | Inl (Exception m) \<Rightarrow>
             (Inr (ascii ''Sorry, I could not retrieve the answer right now.''), emit [LogError] w1)
         | Inl e \<Rightarrow> (Inl e, w1)))"

text \<open>The global instance: \<open>initialize_rag_engine\<close> and \<open>get_rag_answer\<close>.\<close>

definition initialize_rag_engine :: "(doc \<Rightarrow> chunk list) \<Rightarrow> world \<Rightarrow> engine \<times> world" where
  "initialize_rag_engine splitter w =
     (case rag_engine w of
        None \<Rightarrow> (let (e, w1) = UniversityRAGEngine splitter w in (e, w1\<lparr>rag_engine := Some e\<rparr>))
      | Some e \<Rightarrow> (e, w))"

definition get_rag_answer ::
    "(doc \<Rightarrow> chunk list) \<Rightarrow> query_engine \<Rightarrow> str \<Rightarrow> world \<Rightarrow> (raised + str) \<times> world" where
  "get_rag_answer splitter qe query w =
     (let (e, w1) = initialize_rag_engine splitter w in engine_get_rag_answer qe e query w1)"




text \<open>
  The module's configuration of the language model: with no key in the environment a
  warning is printed and \<open>Settings.llm\<close> is \<open>None\<close>; nothing is raised.
\<close>

type_synonym environ = "string \<Rightarrow> str option"

definition truthy :: "str option \<Rightarrow> bool" where
  "truthy v = (case v of None \<Rightarrow> False | Some s \<Rightarrow> s \<noteq> [])"

datatype llm = Groq str

definition settings_llm :: "environ \<Rightarrow> llm option" where
  "settings_llm env =
     (if truthy (env ''GROQ_API_KEY'') then Some (Groq (the (env ''GROQ_API_KEY''))) else None)"

section \<open>agent\_patched.py: the entry point and answer\_with\_rag\<close>

definition pat_greeting :: regex where
  "pat_greeting =
     seq [WordB, Group 1 (alt [lit ''hi'', lit ''hello'', lit ''hey'', lit ''good morning'',
                               lit ''good afternoon'', lit ''good evening'']), WordB]"

definition pat_status :: regex where
  "pat_status =
     seq [WordB, Group 1 (alt [lit ''how are you'', lit ''what's up'', lit ''how's it going'']),
          WordB]"

definition pat_thanks_bye :: regex where
  "pat_thanks_bye =
     seq [WordB, Group 1 (alt [lit ''thank you'', lit ''thanks'', lit ''bye'', lit ''goodbye'']),
          WordB]"

definition pat_capability :: regex where
  "pat_capability =
     seq [WordB, Group 1 (alt [lit ''what can you do'', lit ''help me'', lit ''what do you know'']),
          WordB]"

definition pat_thanks :: regex where
  "pat_thanks = seq [WordB, Group 1 (alt [lit ''thank you'', lit ''thanks'']), WordB]"

definition pat_bye :: regex where
  "pat_bye = seq [WordB, Group 1 (alt [lit ''bye'', lit ''goodbye'']), WordB]"

definition casual_patterns :: "regex list" where
  "casual_patterns = [pat_greeting, pat_status, pat_thanks_bye, pat_capability]"

definition found :: "ucd \<Rightarrow> regex \<Rightarrow> str \<Rightarrow> bool" where
  "found U pattern s = (re_search U pattern s \<noteq> None)"

text \<open>
  The instructions handed to \<open>session.generate_reply\<close>: the five fixed replies, the
  two prompts built from the query (and the cleaned answer), and the fallback of the
  exception handler. \<open>instructions\<close> is their text.
\<close>

datatype prompt =
    SayGreeting
  | SayStatus
  | SayThanks
  | SayBye
  | SayCapability
  | AcknowledgeAndRedirect str
  | DirectAnswer str str
  | Fallback

fun instructions :: "prompt \<Rightarrow> str" where
  "instructions SayGreeting =
     ascii ''Say exactly: Hey there! I'm Nexi your SRM buddy. What do you wanna know about campus?''"
| "instructions SayStatus =
     ascii ''Say exactly: I'm awesome thanks! Ready to help you with anything about SRM. What's on your mind?''"
| "instructions SayThanks =
     ascii ''Say exactly: No problem! Always happy to help a fellow student. Ask me anything else!''"
| "instructions SayBye =
     ascii ''Say exactly: See ya later! Come back anytime you need help with university stuff!''"
| "instructions SayCapability =
     ascii ''Say exactly: I know tons about SRM like hostels fees classes library and campus life. What interests you most?''"
| "instructions (AcknowledgeAndRedirect user_query) =
     [10] @ ascii ''You are Nexi, a friendly university assistant. A student asked: '' @ [34]
     @ user_query @ [34, 10, 10]
     @ ascii ''I don't have specific details about this in my university database.'' @ [10, 10]
     @ ascii ''Respond in 15 words or less with a helpful, conversational tone:'' @ [10]
     @ ascii ''- Briefly acknowledge you don't have that info'' @ [10]
     @ ascii ''- Suggest contacting the university office or checking the official website'' @ [10]
     @ ascii ''- Sound natural and caring, not robotic'' @ [10]"
| "instructions (DirectAnswer user_query clean_answer) =
     [10] @ ascii ''You are Nexi, a super casual and friendly student buddy at SRM University.''
     @ [10, 10] @ ascii ''Student asked: '' @ [34] @ user_query @ [34, 10]
     @ ascii ''Info: '' @ clean_answer @ [10, 10]
     @ ascii ''Respond in 15 words or less like you're texting a friend:'' @ [10]
     @ ascii ''- Use simple everyday words'' @ [10]
     @ ascii ''- Be super casual and warm'' @ [10]
     @ ascii ''- Skip formal language completely'' @ [10]
     @ ascii ''- Sound like a helpful student not a robot'' @ [10]
     @ ascii ''- Start with words like Yeah, So, Basically, etc'' @ [10]"
| "instructions Fallback =
     ascii ''Sorry, I'm having trouble right now. Could you please ask your question again?''"

text \<open>
  \<open>answer_with_rag\<close>: the instructions it generates a reply from. The parameter
  \<open>rag\<close> is the awaited call \<open>get_rag_answer_async(user_query)\<close>: what it returns or
  raises. The handler \<open>except Exception\<close> around the body answers with the fallback.
\<close>

definition answer_with_rag :: "ucd \<Rightarrow> (str \<Rightarrow> raised + str) \<Rightarrow> str \<Rightarrow> raised + prompt" where
  "answer_with_rag U rag user_query =
     (let is_casual = list_ex (\<lambda>pattern. found U pattern (lower U user_query)) casual_patterns
      in if is_casual then
           (if found U pat_greeting (lower U user_query) then Inr SayGreeting
            else if found U pat_status (lower U user_query) then Inr SayStatus
            else if found U pat_thanks (lower U user_query) then Inr SayThanks
            else if found U pat_bye (lower U user_query) then Inr SayBye
            else Inr SayCapability)
         else
           (case rag user_query of
              Inl (Exception m) \<Rightarrow> Inr Fallback
            | Inl e \<Rightarrow> Inl e
            | Inr rag_answer \<Rightarrow>
                (let clean_answer = clean_response_for_speech U rag_answer in
                 if contains (ascii ''don't know'') (lower U rag_answer)
                    \<or> contains (ascii ''cannot'') (lower U rag_answer)
                    \<or> length (strip clean_answer) < 15
                 then Inr (AcknowledgeAndRedirect user_query)
                 else Inr (DirectAnswer user_query clean_answer))))"

text \<open>
  \<open>entrypoint\<close> up to the point where the agent listens. The calls into the
  libraries that it makes on the way are parameters of the model, each with what it
  raises (\<open>None\<close> when it returns): the libraries under \<open>initialize_rag_engine()\<close>
  (the embedding model, the Chroma client, the directory reader, the index), the
  constructor \<open>deepgram.STT\<close>, which reads the environment, the constructors
  \<open>groq.LLM\<close> and \<open>cartesia.TTS\<close>, and the start of the session (\<open>silero.VAD.load\<close>,
  \<open>AgentSession\<close>, \<open>session.start\<close> and the greeting).

  The body runs in the order of the source: the engine is initialised, the
  speech-to-text object is constructed, \<open>GROQ_API_KEY\<close> is read and a missing (or
  empty) one raises \<open>ValueError\<close>, the language model is constructed,
  \<open>CARTESIA_API_KEY\<close> is read in the same way, the text-to-speech object is
  constructed and the session is started. The handler around the body logs what was
  raised and raises it again, so the first failure is what \<open>entrypoint\<close> raises. Only
  a started session registers the transcription handler, which answers each non-blank
  utterance with \<open>answer_with_rag\<close>.
\<close>

datatype startup_error = ValueError string | Raised raised

record libraries =
  engine_setup :: "raised option"
  deepgram_stt :: "environ \<Rightarrow> raised option"
  groq_llm :: "raised option"
  cartesia_tts :: "raised option"
  session_start :: "raised option"

definition entrypoint ::
    "(doc \<Rightarrow> chunk list) \<Rightarrow> libraries \<Rightarrow> environ \<Rightarrow> world \<Rightarrow> startup_error + world" where
  "entrypoint splitter libs env w =
     (case engine_setup libs of
        Some e \<Rightarrow> Inl (Raised e)
      | None \<Rightarrow>
          (let (e, w1) = initialize_rag_engine splitter w in
           case deepgram_stt libs env of
             Some e \<Rightarrow> Inl (Raised e)
           | None \<Rightarrow>
               if \<not> truthy (env ''GROQ_API_KEY'')
               then Inl (ValueError ''GROQ_API_KEY not found in environment variables'')
               else
                 (case groq_llm libs of
                    Some e \<Rightarrow> Inl (Raised e)
                  | None \<Rightarrow>
                      if \<not> truthy (env ''CARTESIA_API_KEY'')
                      then Inl (ValueError ''CARTESIA_API_KEY not found in environment variables'')
                      else
                        (case cartesia_tts libs of
                           Some e \<Rightarrow> Inl (Raised e)
                         | None \<Rightarrow>
                             (case session_start libs of
                                Some e \<Rightarrow> Inl (Raised e)
                              | None \<Rightarrow> Inr w1)))))"

definition on_transcription ::
    "ucd \<Rightarrow> (str \<Rightarrow> raised + str) \<Rightarrow> str \<Rightarrow> (raised + prompt) option" where
  "on_transcription U rag txt =
     (if txt = [] \<or> strip txt = [] then None else Some (answer_with_rag U rag (strip txt)))"

text \<open>
  A job of the agent: the entry point, then the utterances that arrive are served by
  the handler. The second component lists the replies to the utterances.
\<close>

definition agent_job ::
    "ucd \<Rightarrow> (doc \<Rightarrow> chunk list) \<Rightarrow> libraries \<Rightarrow> (str \<Rightarrow> raised + str) \<Rightarrow> environ \<Rightarrow> world
      \<Rightarrow> str list \<Rightarrow> (startup_error + unit) \<times> (raised + prompt) option list" where
  "agent_job U splitter libs rag env w utterances =
     (case entrypoint splitter libs env w of
        Inl err \<Rightarrow> (Inl err, [])
      | Inr w1 \<Rightarrow> (Inr (), map (on_transcription U rag) utterances))"

section \<open>The specification's vocabulary\<close>

text \<open>
  The router and the confidence check as the specification words them: the phrase
  families in their order of priority, the first family found in the lower-cased query
  (no family: a knowledge query), and the confidence of a raw answer. \<open>route_of\<close>
  reads the route off the instructions that \<open>answer_with_rag\<close> generates.
\<close>

datatype casual = Greeting | StatusCheck | Gratitude | Farewell | CapabilityInquiry
datatype route = Casual casual | Knowledge
datatype confidence = Confident | LowConfidence

definition phrase_families :: "(casual \<times> regex) list" where
  "phrase_families =
     [(Greeting, pat_greeting), (StatusCheck, pat_status), (Gratitude, pat_thanks),
      (Farewell, pat_bye), (CapabilityInquiry, pat_capability)]"

fun first_family :: "ucd \<Rightarrow> str \<Rightarrow> (casual \<times> regex) list \<Rightarrow> route" where
  "first_family U q [] = Knowledge"
| "first_family U q ((k, pattern) # fs) =
     (if found U pattern q then Casual k else first_family U q fs)"

definition classify :: "ucd \<Rightarrow> str \<Rightarrow> route" where
  "classify U query = first_family U (lower U query) phrase_families"

fun route_of :: "raised + prompt \<Rightarrow> route" where
  "route_of (Inr SayGreeting) = Casual Greeting"
| "route_of (Inr SayStatus) = Casual StatusCheck"
| "route_of (Inr SayThanks) = Casual Gratitude"
| "route_of (Inr SayBye) = Casual Farewell"
| "route_of (Inr SayCapability) = Casual CapabilityInquiry"
| "route_of other = Knowledge"

definition assess_confidence :: "ucd \<Rightarrow> str \<Rightarrow> confidence" where
  "assess_confidence U raw_answer =
     (if length (strip (clean_response_for_speech U raw_answer)) < 15
         \<or> contains (ascii ''don't know'') (lower U raw_answer)
         \<or> contains (ascii ''cannot'') (lower U raw_answer)
      then LowConfidence else Confident)"


section \<open>Notions for reasoning about the substitutions\<close>

text \<open>
  The facts about \<open>clean_response_for_speech\<close> that hold for every input are stated
  with the notions of this section. None of them is part of the program.

  \<open>advance p u\<close> is the code point before the position once the matcher, started after
  \<open>p\<close>, has consumed \<open>u\<close>.
\<close>

definition advance :: "cp option \<Rightarrow> str \<Rightarrow> cp option" where
  "advance p u = (if u = [] then p else Some (last u))"

text \<open>
  \<open>needs U r P\<close> is a condition on the shape of a pattern under which each of its
  matches consumes a code point that satisfies \<open>P\<close>: on a string without such a code
  point the pattern matches nowhere.
\<close>

fun needs :: "ucd \<Rightarrow> regex \<Rightarrow> (cp \<Rightarrow> bool) \<Rightarrow> bool" where
  "needs U (Atom k) P = (\<forall>c. in_class U k c \<longrightarrow> P c)"
| "needs U (Seq r1 r2) P = (needs U r1 P \<or> needs U r2 P)"
| "needs U (Alt r1 r2) P = (needs U r1 P \<and> needs U r2 P)"
| "needs U (Group n r) P = needs U r P"
| "needs U r P = False"

text \<open>The code points that a replacement template writes by itself.\<close>

fun tchars1 :: "rpart \<Rightarrow> cp set" where
  "tchars1 (Txt x) = set x"
| "tchars1 (Ref n) = {}"

definition tchars :: "rpart list \<Rightarrow> cp set" where
  "tchars t = \<Union> (tchars1 ` set t)"

text \<open>
  \<open>squeeze P s\<close> writes one space for each maximal run of code points that satisfy
  \<open>P\<close>: what \<open>re.sub\<close> computes for a pattern \<open>k+\<close> and the replacement \<open>' '\<close>.
\<close>

function squeeze :: "(cp \<Rightarrow> bool) \<Rightarrow> str \<Rightarrow> str" where
  "squeeze P [] = []"
| "squeeze P (c # cs) = (if P c then 32 # squeeze P (dropWhile P cs) else c # squeeze P cs)"
  by pat_completeness auto
termination
  by (relation "measure (\<lambda>(P, s). length s)") (auto simp: length_dropWhile_le less_Suc_eq_le)

text \<open>
  The words of the rule for units, each with and without its plural s, and the
  alternation of the rule written over the list of words.
\<close>

definition unit_bases :: "string list" where
  "unit_bases = [''hour'', ''day'', ''week'', ''month'', ''year'']"

definition unit_words :: "str list" where
  "unit_words = concat (map (\<lambda>b. [ascii b @ [115], ascii b]) unit_bases)"

definition units_re :: regex where
  "units_re = alt (map (\<lambda>b. Seq (lit b) (opt (lit ''s''))) unit_bases)"

text \<open>
  A number written directly before a unit, as in 5hours: at a position that does not
  follow a word character, the word that starts there is a run of digits followed by a
  unit word. \<open>tight\<close> says that some position of the string is of this kind. The rule
  for units puts a space between the two, so that its output has no such position.
\<close>

definition tight_here :: "ucd \<Rightarrow> cp option \<Rightarrow> str \<Rightarrow> bool" where
  "tight_here U p s =
     (\<not> word_before U p \<and>
      takeWhile (is_digit U) (takeWhile (is_word U) s) \<noteq> [] \<and>
      dropWhile (is_digit U) (takeWhile (is_word U) s) \<in> set unit_words)"

fun tight :: "ucd \<Rightarrow> cp option \<Rightarrow> str \<Rightarrow> bool" where
  "tight U p [] = False"
| "tight U p (c # cs) = (tight_here U p (c # cs) \<or> tight U (Some c) cs)"

text \<open>
  A string is \<open>spaced\<close> when each of its whitespace code points is a space that is
  followed by a code point that is not whitespace, or by nothing.
\<close>

fun spaced :: "str \<Rightarrow> bool" where
  "spaced [] = True"
| "spaced (c # cs) =
     ((is_space c \<longrightarrow> c = 32 \<and> (cs = [] \<or> \<not> is_space (hd cs))) \<and> spaced cs)"

section \<open>Sample inputs\<close>

text \<open>
  A fresh process with no data folder and an empty collection; a process whose
  collection already holds a chunk; a splitter that keeps a document whole; query
  engines that are interrupted, that fail, and that answer with the index; an
  environment without keys.
\<close>

definition sample_world :: world where
  "sample_world =
     \<lparr>collection = [], data_dir = None, rag_engine = None, constructed = 0, events = []\<rparr>"

definition stocked_world :: world where
  "stocked_world =
     \<lparr>collection = [ascii ''Minimum attendance required is 75 percent''],
      data_dir = Some [ascii ''Attendance policy''], rag_engine = None, constructed = 0,
      events = []\<rparr>"

definition whole_doc :: "doc \<Rightarrow> chunk list" where
  "whole_doc d = [d]"

definition interrupted :: query_engine where
  "interrupted ix q = Inl KeyboardInterrupt"


definition echo :: query_engine where
  "echo ix q = Inr (concat ix)"

definition no_keys :: environ where
  "no_keys name = None"

text \<open>
  An environment with every key but \<open>GROQ_API_KEY\<close>, and libraries that work: the
  speech-to-text constructor asks for its key, nothing else raises.
\<close>

definition groq_missing :: environ where
  "groq_missing name =
     (if name = ''DEEPGRAM_API_KEY'' then Some (ascii ''dg-key'')
      else if name = ''CARTESIA_API_KEY'' then Some (ascii ''ca-key'')
      else None)"

definition working_libraries :: libraries where
  "working_libraries =
     \<lparr>engine_setup = None,
      deepgram_stt = (\<lambda>env. if truthy (env ''DEEPGRAM_API_KEY'') then None
                            else Some (Exception (ascii ''api_key is required''))),
      groq_llm = None, cartesia_tts = None, session_start = None\<rparr>"

section \<open>Facts about the router\<close>

lemmas pat_defs = re_bold_def re_italic_def re_underline_def re_code_def re_numbered_nl_def
  re_numbered_start_def bullet_marks_def re_bullet_line_def re_bullet_nl_def re_note_def
  re_important_def re_remember_def symbol_set_def punct_set_def re_slash_ws_def re_slash_def
  re_hyphen_def re_units_def re_percent_def re_newlines_def re_spaces_def
  seq_def alt_def lit_def liti_def plus_def opt_def
lemmas eng_defs = re_sub_def re_match_def expand_def word_before_def word_after_def
  is_word_def is_digit_def is_space_def ascii_def strip_def
lemmas router_defs = pat_greeting_def pat_status_def pat_thanks_bye_def pat_capability_def
  pat_thanks_def pat_bye_def casual_patterns_def found_def re_search_def lower_def

lemma found_iff: "found U r s \<longleftrightarrow> re_search_from U r None s \<noteq> None"
  by (simp add: found_def re_search_def)

lemma search_split:
  assumes "\<And>p s. (re_match U r p s = None) = (re_match U r1 p s = None \<and> re_match U r2 p s = None)"
  shows "(re_search_from U r p s = None)
         = (re_search_from U r1 p s = None \<and> re_search_from U r2 p s = None)"
proof (induction s arbitrary: p)
  case Nil
  show ?case by (simp add: assms)
next
  case (Cons c cs)
  from assms [of p "c # cs"] Cons [of "Some c"] show ?case
    by (auto split: option.splits)
qed

lemma no_match_iff: "re_match U r p s = None \<longleftrightarrow> rmatch U r (p, s, []) = []"
  by (simp add: re_match_def split: list.splits)

lemma word_alternatives:
  "rmatch U (seq [WordB, Group n (alt [a, b, c, d]), WordB]) st
   = rmatch U (seq [WordB, Group n (alt [a, b]), WordB]) st
     @ rmatch U (seq [WordB, Group n (alt [c, d]), WordB]) st"
  by (cases st) (simp add: seq_def alt_def)

lemma thanks_bye_match:
  "(re_match U pat_thanks_bye p s = None)
   = (re_match U pat_thanks p s = None \<and> re_match U pat_bye p s = None)"
  by (simp add: no_match_iff pat_thanks_bye_def pat_thanks_def pat_bye_def word_alternatives)

lemma found_thanks_bye:
  "found U pat_thanks_bye s \<longleftrightarrow> found U pat_thanks s \<or> found U pat_bye s"
  using search_split [of U pat_thanks_bye pat_thanks pat_bye None s, OF thanks_bye_match]
  by (auto simp: found_iff)

lemma route_of_answer: "route_of (answer_with_rag U rag q) = classify U q"
  by (simp add: answer_with_rag_def classify_def phrase_families_def casual_patterns_def
      found_thanks_bye Let_def split: sum.splits raised.splits)

lemma hey_there: "classify U (ascii ''hey there'') = Casual Greeting"
  by (simp add: classify_def phrase_families_def router_defs pat_defs eng_defs)

lemma library_timing: "classify U (ascii ''what is the library timing'') = Knowledge"
  by (simp add: classify_def phrase_families_def router_defs pat_defs eng_defs)

lemma knowledge_iff:
  "classify U q = Knowledge
   \<longleftrightarrow> \<not> list_ex (\<lambda>pattern. found U pattern (lower U q)) casual_patterns"
  by (simp add: classify_def phrase_families_def casual_patterns_def found_thanks_bye)

text \<open>
  Claim C4. Whatever the query and whatever the retrieval call does, the route read off
  the instructions that \<open>answer_with_rag\<close> generates is the first of the families
  greeting, status check, gratitude, farewell, capability inquiry whose pattern is
  found in the lower-cased query, and Knowledge when none is found. The query
  "hey there" is a greeting and "what is the library timing" is a knowledge query.
\<close>

theorem router_first_family_wins:
  "route_of (answer_with_rag U rag query) = classify U query
   \<and> classify U (ascii ''hey there'') = Casual Greeting
   \<and> classify U (ascii ''what is the library timing'') = Knowledge"
  by (simp add: route_of_answer hey_there library_timing)

theorem router_witness:
  "answer_with_rag ascii_db (\<lambda>q. Inr q) (ascii ''hey there'') = Inr SayGreeting"
proof -
  have "route_of (answer_with_rag ascii_db (\<lambda>q. Inr q) (ascii ''hey there'')) = Casual Greeting"
    using router_first_family_wins [of ascii_db "\<lambda>q. Inr q" "ascii ''hey there''"] by simp
  then show ?thesis
    by (cases "answer_with_rag ascii_db (\<lambda>q. Inr q) (ascii ''hey there'')" rule: route_of.cases)
      simp_all
qed

section \<open>Facts about the text cleaning\<close>

lemma strip_empty_iff: "strip s = [] \<longleftrightarrow> (\<forall>c\<in>set s. is_space c)"
proof
  assume "strip s = []"
  then have a: "\<forall>c\<in>set (dropWhile is_space s). is_space c"
    by (simp add: strip_def)
  have "dropWhile is_space s = []"
  proof (cases "dropWhile is_space s")
    case Nil
    then show ?thesis .
  next
    case (Cons a list)
    then have "\<not> is_space a"
      using hd_dropWhile [of is_space s] by simp
    with a Cons show ?thesis by simp
  qed
  then show "\<forall>c\<in>set s. is_space c" by simp
next
  assume "\<forall>c\<in>set s. is_space c"
  then show "strip s = []"
    by (auto simp: strip_def dest: set_dropWhileD)
qed

lemmas clean_defs = clean_response_for_speech_def pat_defs eng_defs

text \<open>
  Claim C2 (the code does not do what the claim says). On "**Note:** Fees are 10%" the
  function returns "Please note that Fees are 10": the percent sign is removed with the
  other symbols before the rule that would write "percent" is applied, so that rule
  finds nothing, and the result does not contain "10 percent".
\<close>

theorem note_fees_loses_percent:
  "clean_response_for_speech U (ascii ''**Note:** Fees are 10%'')
     = ascii ''Please note that Fees are 10''"
  by (simp add: clean_defs)

theorem note_fees_witness:
  "\<not> contains (ascii ''10 percent'')
       (clean_response_for_speech ascii_db (ascii ''**Note:** Fees are 10%''))"
  using note_fees_loses_percent [of ascii_db]
  by (simp add: ascii_def)

text \<open>
  Claim C1 as stated fails: two underscores on different lines survive the first pass
  (the newline between them becomes a space) and are removed by the second.
\<close>

lemma underscores_first_pass:
  "clean_response_for_speech U (ascii ''a_b'' @ [10] @ ascii ''c_d'') = ascii ''a_b c_d''"
  by (simp add: clean_defs)

lemma underscores_second_pass:
  "clean_response_for_speech U (ascii ''a_b c_d'') = ascii ''ab cd''"
  by (simp add: clean_defs)

theorem cleaning_twice_differs:
  "clean_response_for_speech ascii_db
     (clean_response_for_speech ascii_db (ascii ''a_b'' @ [10] @ ascii ''c_d''))
   \<noteq> clean_response_for_speech ascii_db (ascii ''a_b'' @ [10] @ ascii ''c_d'')"
proof -
  have "ascii ''ab cd'' \<noteq> ascii ''a_b c_d''"
    by (simp add: ascii_def)
  then show ?thesis
    unfolding underscores_first_pass underscores_second_pass .
qed

section \<open>Facts about a second pass of the text cleaning\<close>

subsection \<open>Where a match ends, and patterns that cannot match\<close>

lemma advance_Nil [simp]: "advance p [] = p"
  by (simp add: advance_def)

lemma advance_Cons: "advance p (c # u) = advance (Some c) u"
  by (simp add: advance_def)

lemma advance_append: "advance (advance p u) v = advance p (u @ v)"
  by (simp add: advance_def)

lemma star_greedy_suffix:
  "(p', s') \<in> set (star_greedy U k p s) \<Longrightarrow> \<exists>u. s = u @ s' \<and> p' = advance p u"
proof (induction s arbitrary: p)
  case Nil
  then show ?case by simp
next
  case (Cons c cs)
  from Cons.prems consider "(p', s') = (p, c # cs)"
    | "(p', s') \<in> set (star_greedy U k (Some c) cs)"
    by (auto split: if_splits)
  then show ?case
  proof cases
    case 1
    then have "c # cs = [] @ s' \<and> p' = advance p []" by simp
    then show ?thesis by blast
  next
    case 2
    from Cons.IH [OF this] obtain u where "cs = u @ s'" "p' = advance (Some c) u"
      by blast
    then have "c # cs = (c # u) @ s' \<and> p' = advance p (c # u)"
      by (simp add: advance_Cons)
    then show ?thesis by blast
  qed
qed

lemma star_lazy_suffix:
  "(p', s') \<in> set (star_lazy U k p s) \<Longrightarrow> \<exists>u. s = u @ s' \<and> p' = advance p u"
proof (induction s arbitrary: p)
  case Nil
  then show ?case by simp
next
  case (Cons c cs)
  from Cons.prems consider "(p', s') = (p, c # cs)"
    | "(p', s') \<in> set (star_lazy U k (Some c) cs)"
    by (auto split: if_splits)
  then show ?case
  proof cases
    case 1
    then have "c # cs = [] @ s' \<and> p' = advance p []" by simp
    then show ?thesis by blast
  next
    case 2
    from Cons.IH [OF this] obtain u where "cs = u @ s'" "p' = advance (Some c) u"
      by blast
    then have "c # cs = (c # u) @ s' \<and> p' = advance p (c # u)"
      by (simp add: advance_Cons)
    then show ?thesis by blast
  qed
qed

lemma rmatch_suffix:
  "(p', s', g') \<in> set (rmatch U r (p, s, g)) \<Longrightarrow> \<exists>u. s = u @ s' \<and> p' = advance p u"
proof (induction r arbitrary: p s g p' s' g')
  case Eps
  then show ?case by simp
next
  case (Atom k)
  then show ?case
    by (cases s) (auto simp: advance_def split: if_splits)
next
  case (Star k)
  then show ?case
    by (auto dest: star_greedy_suffix)
next
  case (LazyStar k)
  then show ?case
    by (auto dest: star_lazy_suffix)
next
  case (Seq r1 r2)
  from Seq.prems obtain p1 s1 g1 where
    m1: "(p1, s1, g1) \<in> set (rmatch U r1 (p, s, g))" and
    m2: "(p', s', g') \<in> set (rmatch U r2 (p1, s1, g1))"
    by auto
  from Seq.IH(1) [OF m1] obtain u where u: "s = u @ s1" "p1 = advance p u" by blast
  from Seq.IH(2) [OF m2] obtain v where v: "s1 = v @ s'" "p' = advance p1 v" by blast
  from u v have "s = (u @ v) @ s' \<and> p' = advance p (u @ v)"
    by (simp add: advance_append)
  then show ?case by blast
next
  case (Alt r1 r2)
  then show ?case by auto
next
  case (Group n r)
  then show ?case by auto
next
  case Bol
  then show ?case by (auto split: if_splits)
next
  case BolM
  then show ?case by (auto split: if_splits)
next
  case WordB
  then show ?case by (auto split: if_splits)
qed

lemma needs_consumed:
  "needs U r P \<Longrightarrow> (p', s', g') \<in> set (rmatch U r (p, s, g)) \<Longrightarrow>
     \<exists>u. s = u @ s' \<and> (\<exists>c\<in>set u. P c)"
proof (induction r arbitrary: p s g p' s' g')
  case (Atom k)
  then show ?case
    by (cases s) (auto split: if_splits)
next
  case (Seq r1 r2)
  from Seq.prems(2) obtain p1 s1 g1 where
    m1: "(p1, s1, g1) \<in> set (rmatch U r1 (p, s, g))" and
    m2: "(p', s', g') \<in> set (rmatch U r2 (p1, s1, g1))"
    by auto
  from rmatch_suffix [OF m1] obtain u where u: "s = u @ s1" by blast
  from rmatch_suffix [OF m2] obtain v where v: "s1 = v @ s'" by blast
  show ?case
  proof (cases "needs U r1 P")
    case True
    from Seq.IH(1) [OF True m1] u have "\<exists>c\<in>set u. P c" by auto
    with u v have "s = (u @ v) @ s' \<and> (\<exists>c\<in>set (u @ v). P c)" by auto
    then show ?thesis by blast
  next
    case False
    with Seq.prems(1) have "needs U r2 P" by simp
    from Seq.IH(2) [OF this m2] v have "\<exists>c\<in>set v. P c" by auto
    with u v have "s = (u @ v) @ s' \<and> (\<exists>c\<in>set (u @ v). P c)" by auto
    then show ?thesis by blast
  qed
next
  case (Alt r1 r2)
  then show ?case by auto
next
  case (Group n r)
  then show ?case by auto
qed simp_all

lemma needs_no_match:
  "needs U r P \<Longrightarrow> \<forall>c\<in>set s. \<not> P c \<Longrightarrow> rmatch U r (p, s, g) = []"
proof (rule ccontr)
  assume n: "needs U r P" and a: "\<forall>c\<in>set s. \<not> P c" and "rmatch U r (p, s, g) \<noteq> []"
  then obtain m where "m \<in> set (rmatch U r (p, s, g))"
    by (cases "rmatch U r (p, s, g)") auto
  then obtain p' s' g' where "(p', s', g') \<in> set (rmatch U r (p, s, g))"
    by (metis prod_cases3)
  from needs_consumed [OF n this] a show False by auto
qed

lemma re_match_None: "rmatch U r (p, s, []) = [] \<Longrightarrow> re_match U r p s = None"
  by (simp add: re_match_def)

lemma re_match_Some:
  "re_match U r p s = Some m \<Longrightarrow> m \<in> set (rmatch U r (p, s, []))"
  by (auto simp: re_match_def split: list.splits)

lemma re_sub_unchanged:
  "needs U r P \<Longrightarrow> \<forall>c\<in>set s. \<not> P c \<Longrightarrow> re_sub_from U r t p s = s"
proof (induction s arbitrary: p)
  case Nil
  then show ?case
    by (simp add: re_match_None needs_no_match)
next
  case (Cons c cs)
  from Cons.prems have "re_match U r p (c # cs) = None"
    by (intro re_match_None needs_no_match) auto
  with Cons show ?case by simp
qed

subsection \<open>What a substitution can write and what it leaves alone\<close>

lemma rmatch_groups:
  "(p', s', g') \<in> set (rmatch U r (p, s, g)) \<Longrightarrow> (n, v) \<in> set g' \<Longrightarrow>
     (n, v) \<in> set g \<or> set v \<subseteq> set s"
proof (induction r arbitrary: p s g p' s' g')
  case (Seq r1 r2)
  from Seq.prems(1) obtain p1 s1 g1 where
    m1: "(p1, s1, g1) \<in> set (rmatch U r1 (p, s, g))" and
    m2: "(p', s', g') \<in> set (rmatch U r2 (p1, s1, g1))"
    by auto
  from rmatch_suffix [OF m1] have sub: "set s1 \<subseteq> set s" by auto
  from Seq.IH(2) [OF m2 Seq.prems(2)] show ?case
  proof
    assume "(n, v) \<in> set g1"
    from Seq.IH(1) [OF m1 this] show ?thesis .
  next
    assume "set v \<subseteq> set s1"
    with sub show ?thesis by auto
  qed
next
  case (Group m r)
  from Group.prems(1) obtain g2 where
    m1: "(p', s', g2) \<in> set (rmatch U r (p, s, g))" and
    g': "g' = (m, take (length s - length s') s) # g2"
    by auto
  from Group.prems(2) g' consider "v = take (length s - length s') s" | "(n, v) \<in> set g2"
    by auto
  then show ?case
  proof cases
    case 1
    then show ?thesis by (auto dest: in_set_takeD)
  next
    case 2
    from Group.IH [OF m1 this] show ?thesis .
  qed
next
  case (Alt r1 r2)
  from Alt.prems(1) consider "(p', s', g') \<in> set (rmatch U r1 (p, s, g))"
    | "(p', s', g') \<in> set (rmatch U r2 (p, s, g))"
    by auto
  then show ?case
  proof cases
    case 1
    from Alt.IH(1) [OF this Alt.prems(2)] show ?thesis .
  next
    case 2
    from Alt.IH(2) [OF this Alt.prems(2)] show ?thesis .
  qed
next
  case (Atom k)
  then show ?case by (cases s) (auto split: if_splits)
qed (auto split: if_splits)

lemma expand_chars:
  assumes "\<And>n v. (n, v) \<in> set g \<Longrightarrow> set v \<subseteq> A"
  shows "set (expand t g) \<subseteq> tchars t \<union> A"
proof -
  have "set (expand1 g x) \<subseteq> tchars1 x \<union> A" for x
  proof (cases x)
    case (Txt w)
    then show ?thesis by simp
  next
    case (Ref n)
    show ?thesis
    proof (cases "map_of g n")
      case None
      with Ref show ?thesis by simp
    next
      case (Some w)
      then have "(n, w) \<in> set g" by (rule map_of_SomeD)
      from assms [OF this] Ref Some show ?thesis by auto
    qed
  qed
  then show ?thesis
    by (auto simp: expand_def tchars_def)
qed

lemma match_expand_chars:
  assumes "re_match U r p s = Some (p', s', g)"
  shows "set (expand t g) \<subseteq> tchars t \<union> set s"
proof (rule expand_chars)
  fix n v
  assume "(n, v) \<in> set g"
  with rmatch_groups [OF re_match_Some [OF assms] this] show "set v \<subseteq> set s"
    by simp
qed

lemma match_rest:
  assumes "re_match U r p s = Some (p', s', g)"
  shows "\<exists>u. s = u @ s' \<and> p' = advance p u"
  using rmatch_suffix [OF re_match_Some [OF assms]] .

lemma re_sub_chars: "set (re_sub_from U r t p s) \<subseteq> set s \<union> tchars t"
proof (induction "length s" arbitrary: s p rule: less_induct)
  case less
  show ?case
  proof (cases s)
    case Nil
    show ?thesis
    proof (cases "re_match U r p []")
      case None
      with Nil show ?thesis by simp
    next
      case (Some m)
      obtain p' s' g where m: "m = (p', s', g)" by (cases m)
      from match_expand_chars [of U r p "[]" p' s' g t] Some m Nil show ?thesis
        by auto
    qed
  next
    case (Cons c cs)
    show ?thesis
    proof (cases "re_match U r p (c # cs)")
      case None
      from less [of cs "Some c"] Cons None show ?thesis
        by auto
    next
      case (Some m)
      obtain p' s' g where m: "m = (p', s', g)" by (cases m)
      from match_rest [of U r p "c # cs" p' s' g] Some m
      obtain u where "c # cs = u @ s'" by auto
      then have "set (c # cs) = set u \<union> set s'" by (metis set_append)
      then have sub: "set s' \<subseteq> set (c # cs)" by blast
      have e: "set (expand t g) \<subseteq> tchars t \<union> set (c # cs)"
        using match_expand_chars [of U r p "c # cs" p' s' g t] Some m by simp
      show ?thesis
      proof (cases "length s' < Suc (length cs)")
        case True
        with less [of s' p'] Cons have "set (re_sub_from U r t p' s') \<subseteq> set s' \<union> tchars t"
          by simp
        moreover from Some m True
        have "re_sub_from U r t p (c # cs) = expand t g @ re_sub_from U r t p' s'"
          by simp
        ultimately show ?thesis
          using sub e Cons by auto
      next
        case False
        from less [of cs "Some c"] Cons
        have "set (re_sub_from U r t (Some c) cs) \<subseteq> set cs \<union> tchars t"
          by simp
        moreover from Some m False
        have "re_sub_from U r t p (c # cs) = expand t g @ c # re_sub_from U r t (Some c) cs"
          by simp
        ultimately show ?thesis
          using e Cons by auto
      qed
    qed
  qed
qed

lemma re_sub_keeps_absent:
  "\<forall>c\<in>set s. \<not> P c \<Longrightarrow> \<forall>c\<in>tchars t. \<not> P c \<Longrightarrow> \<forall>c\<in>set (re_sub_from U r t p s). \<not> P c"
  using re_sub_chars [of U r t p s] by blast

lemma re_sub_fixed:
  "(\<And>a b p' s' g. s = a @ b \<Longrightarrow> re_match U r (advance p a) b = Some (p', s', g) \<Longrightarrow>
      expand t g @ s' = b \<and> s' \<noteq> b)
   \<Longrightarrow> re_sub_from U r t p s = s"
proof (induction "length s" arbitrary: s p rule: less_induct)
  case less
  show ?case
  proof (cases s)
    case Nil
    show ?thesis
    proof (cases "re_match U r p []")
      case None
      with Nil show ?thesis by simp
    next
      case (Some m)
      obtain p' s' g where m: "m = (p', s', g)" by (cases m)
      from match_rest [of U r p "[]" p' s' g] Some m have "s' = []" by simp
      moreover from less.prems [of "[]" "[]" p' s' g] Nil Some m have "s' \<noteq> []" by simp
      ultimately show ?thesis by simp
    qed
  next
    case (Cons c cs)
    show ?thesis
    proof (cases "re_match U r p (c # cs)")
      case None
      have "re_sub_from U r t (Some c) cs = cs"
      proof (rule less.hyps)
        show "length cs < length s" using Cons by simp
      next
        fix a b p' s' g
        assume "cs = a @ b" and "re_match U r (advance (Some c) a) b = Some (p', s', g)"
        with less.prems [of "c # a" b p' s' g] Cons
        show "expand t g @ s' = b \<and> s' \<noteq> b"
          by (simp add: advance_Cons)
      qed
      with None Cons show ?thesis by simp
    next
      case (Some m)
      obtain p' s' g where m: "m = (p', s', g)" by (cases m)
      from less.prems [of "[]" "c # cs" p' s' g] Cons Some m
      have e: "expand t g @ s' = c # cs" and ne: "s' \<noteq> c # cs" by simp_all
      from match_rest [of U r p "c # cs" p' s' g] Some m
      obtain u where u: "c # cs = u @ s'" "p' = advance p u" by auto
      with ne have "u \<noteq> []" by auto
      with u have len: "length s' < Suc (length cs)"
        by (metis length_Cons length_append length_greater_0_conv less_add_same_cancel2 add.commute)
      have "re_sub_from U r t p' s' = s'"
      proof (rule less.hyps)
        show "length s' < length s" using Cons len by simp
      next
        fix a b p'' s'' g''
        assume "s' = a @ b" and "re_match U r (advance p' a) b = Some (p'', s'', g'')"
        with less.prems [of "u @ a" b p'' s'' g''] Cons u
        show "expand t g'' @ s'' = b \<and> s'' \<noteq> b"
          by (simp add: advance_append)
      qed
      with Some m len e Cons show ?thesis by simp
    qed
  qed
qed

lemma re_sub_consumes:
  assumes hit: "\<And>p c cs. P c \<Longrightarrow> rmatch U r (p, c # cs, []) \<noteq> []"
    and nonnull: "needs U r (\<lambda>c. True)"
    and tmpl: "\<And>g c. c \<in> set (expand t g) \<Longrightarrow> \<not> P c"
  shows "\<forall>c\<in>set (re_sub_from U r t p s). \<not> P c"
proof (induction "length s" arbitrary: s p rule: less_induct)
  case less
  show ?case
  proof (cases s)
    case Nil
    have "rmatch U r (p, [], []) = []"
      by (rule needs_no_match [OF nonnull]) simp
    then have "re_match U r p [] = None" by (rule re_match_None)
    with Nil show ?thesis by simp
  next
    case (Cons c cs)
    show ?thesis
    proof (cases "re_match U r p (c # cs)")
      case None
      then have "rmatch U r (p, c # cs, []) = []"
        by (simp add: re_match_def split: list.splits)
      with hit [of c p cs] have "\<not> P c" by blast
      with less [of cs "Some c"] None Cons show ?thesis by simp
    next
      case (Some m)
      obtain p' s' g where m: "m = (p', s', g)" by (cases m)
      from needs_consumed [OF nonnull re_match_Some [OF Some [unfolded m]]]
      obtain u where "c # cs = u @ s'" "\<exists>c\<in>set u. True" by blast
      then have "c # cs = u @ s'" "u \<noteq> []" by auto
      then have len: "length s' < Suc (length cs)"
        by (metis length_Cons length_append length_greater_0_conv less_add_same_cancel2 add.commute)
      with less [of s' p'] Cons have "\<forall>c\<in>set (re_sub_from U r t p' s'). \<not> P c" by simp
      with Some m len Cons tmpl [of _ g] show ?thesis by auto
    qed
  qed
qed

lemma re_sub_delete:
  "re_sub_from U (Atom k) [] p s = filter (\<lambda>c. \<not> in_class U k c) s"
  by (induction s arbitrary: p) (simp_all add: re_match_def expand_def)

lemma star_greedy_hd:
  "\<exists>q rest. star_greedy U k p s = (q, dropWhile (in_class U k) s) # rest"
proof (induction s arbitrary: p)
  case Nil
  show ?case by simp
next
  case (Cons c cs)
  from Cons [of "Some c"] obtain q rest where
    "star_greedy U k (Some c) cs = (q, dropWhile (in_class U k) cs) # rest" by blast
  then show ?case by simp
qed

lemma re_sub_squeeze:
  "re_sub_from U (plus k) [Txt [32]] p s = squeeze (in_class U k) s"
proof (induction "length s" arbitrary: s p rule: less_induct)
  case less
  show ?case
  proof (cases s)
    case Nil
    then show ?thesis by (simp add: re_match_def plus_def)
  next
    case (Cons c cs)
    show ?thesis
    proof (cases "in_class U k c")
      case False
      with less [of cs "Some c"] Cons show ?thesis
        by (simp add: re_match_def plus_def)
    next
      case True
      from star_greedy_hd [of U k "Some c" cs] obtain q rest where
        h: "star_greedy U k (Some c) cs = (q, dropWhile (in_class U k) cs) # rest" by blast
      have len: "length (dropWhile (in_class U k) cs) < Suc (length cs)"
        by (simp add: length_dropWhile_le less_Suc_eq_le)
      with True h have
        "re_sub_from U (plus k) [Txt [32]] p (c # cs)
         = 32 # re_sub_from U (plus k) [Txt [32]] q (dropWhile (in_class U k) cs)"
        by (simp add: re_match_def plus_def expand_def)
      with less [of "dropWhile (in_class U k) cs" q] len True Cons show ?thesis
        by simp
    qed
  qed
qed

subsection \<open>The pattern of the rule for units\<close>

lemma re_units_alt:
  "re_units = seq [WordB, Group 1 (plus Digit), Star Space, Group 2 units_re, WordB]"
  by (simp add: re_units_def units_re_def unit_bases_def)

lemma unit_words_iff:
  "u \<in> set unit_words \<longleftrightarrow> (\<exists>b\<in>set unit_bases. u = ascii b @ [115] \<or> u = ascii b)"
  by (auto simp: unit_words_def)

lemma set_rmatch_alt:
  "rs \<noteq> [] \<Longrightarrow> set (rmatch U (alt rs) st) = (\<Union>r\<in>set rs. set (rmatch U r st))"
proof (induction rs)
  case Nil
  then show ?case by simp
next
  case (Cons r rs)
  show ?case
  proof (cases rs)
    case Nil
    then show ?thesis by (simp add: alt_def)
  next
    case (Cons r' rs')
    then have "alt (r # rs) = Alt r (alt rs)"
      by (simp add: alt_def)
    with Cons.IH Cons show ?thesis by simp
  qed
qed

lemma lit_Nil: "lit [] = Eps"
  by (simp add: lit_def seq_def)

lemma lit_Cons: "lit (x # w) = Seq (Atom (Lit (of_char x))) (lit w)"
  by (simp add: lit_def seq_def)

lemma rmatch_lit:
  "rmatch U (lit w) (p, s, g) =
     (if take (length w) s = ascii w then [(advance p (ascii w), drop (length w) s, g)] else [])"
proof (induction w arbitrary: p s)
  case Nil
  show ?case by (simp add: lit_Nil ascii_def)
next
  case (Cons x w)
  show ?case
  proof (cases s)
    case Nil
    then show ?thesis by (simp add: lit_Cons ascii_def)
  next
    case (Cons c cs)
    with Cons.IH [of "Some c" cs] show ?thesis
      by (auto simp: lit_Cons ascii_def advance_Cons)
  qed
qed

lemma rmatch_unit:
  "set (rmatch U (Seq (lit b) (opt (lit ''s''))) (q, r, g)) =
     (if take (length b) r = ascii b
      then (if take 1 (drop (length b) r) = [115]
            then {(Some 115, drop (Suc (length b)) r, g)} else {})
           \<union> {(advance q (ascii b), drop (length b) r, g)}
      else {})"
  by (simp add: rmatch_lit opt_def ascii_def advance_def)


lemma take_snoc:
  "take n r = b \<Longrightarrow> length b = n \<Longrightarrow> take 1 (drop n r) = [x] \<Longrightarrow> take (Suc n) r = b @ [x]"
  by (metis One_nat_def add.commute plus_1_eq_Suc take_add)

lemma units_outcome:
  assumes "(p', s', g') \<in> set (rmatch U units_re (q, r, g))"
  shows "\<exists>u\<in>set unit_words. r = u @ s' \<and> p' = Some (last u) \<and> g' = g"
proof -
  from assms obtain b where b: "b \<in> set unit_bases"
    and m: "(p', s', g') \<in> set (rmatch U (Seq (lit b) (opt (lit ''s''))) (q, r, g))"
    unfolding units_re_def by (auto simp: set_rmatch_alt unit_bases_def simp del: rmatch.simps)
  from b have ne: "ascii b \<noteq> []"
    by (auto simp: unit_bases_def ascii_def)
  from m have t: "take (length b) r = ascii b"
    unfolding rmatch_unit by (simp split: if_splits)
  from m t consider
    "take 1 (drop (length b) r) = [115]" "p' = Some 115" "s' = drop (Suc (length b)) r" "g' = g"
    | "p' = advance q (ascii b)" "s' = drop (length b) r" "g' = g"
    unfolding rmatch_unit by (auto split: if_splits)
  then show ?thesis
  proof cases
    case 1
    from take_snoc [OF t _ 1(1)] have "take (Suc (length b)) r = ascii b @ [115]"
      by (simp add: ascii_def)
    then have "r = (ascii b @ [115]) @ drop (Suc (length b)) r"
      by (metis append_take_drop_id)
    with 1 b have "ascii b @ [115] \<in> set unit_words
      \<and> r = (ascii b @ [115]) @ s' \<and> p' = Some (last (ascii b @ [115])) \<and> g' = g"
      by (auto simp: unit_words_iff)
    then show ?thesis by blast
  next
    case 2
    from t have "r = ascii b @ drop (length b) r"
      by (metis append_take_drop_id)
    with 2 b ne have "ascii b \<in> set unit_words
      \<and> r = ascii b @ s' \<and> p' = Some (last (ascii b)) \<and> g' = g"
      by (auto simp: unit_words_iff advance_def)
    then show ?thesis by blast
  qed
qed

lemma units_match:
  assumes "u \<in> set unit_words"
  shows "(Some (last u), b, g) \<in> set (rmatch U units_re (q, u @ b, g))"
proof -
  from assms obtain w where w: "w \<in> set unit_bases" and u: "u = ascii w @ [115] \<or> u = ascii w"
    by (auto simp: unit_words_iff)
  from w have ne: "ascii w \<noteq> []"
    by (auto simp: unit_bases_def ascii_def)
  have len: "length (ascii w) = length w" by (simp add: ascii_def)
  have "(Some (last u), b, g) \<in> set (rmatch U (Seq (lit w) (opt (lit ''s''))) (q, u @ b, g))"
    using u
  proof
    assume "u = ascii w @ [115]"
    then show ?thesis
      unfolding rmatch_unit using len by simp
  next
    assume "u = ascii w"
    then show ?thesis
      unfolding rmatch_unit using len ne by (simp add: advance_def)
  qed
  with w show ?thesis
    unfolding units_re_def by (auto simp: set_rmatch_alt unit_bases_def simp del: rmatch.simps)
qed

lemma unit_word_letters: "u \<in> set unit_words \<Longrightarrow> c \<in> set u \<Longrightarrow> 97 \<le> c \<and> c \<le> 122"
  by (auto simp: unit_words_iff unit_bases_def ascii_def)

lemma unit_word_chars:
  assumes "u \<in> set unit_words" and "c \<in> set u"
  shows "is_word U c \<and> \<not> is_digit U c \<and> \<not> is_space c"
proof -
  from unit_word_letters [OF assms] have "97 \<le> c" "c \<le> 122" by simp_all
  then show ?thesis
    by (simp add: is_word_def is_digit_def is_space_def)
qed

lemma unit_word_nonempty: "u \<in> set unit_words \<Longrightarrow> u \<noteq> []"
  by (auto simp: unit_words_iff unit_bases_def ascii_def)

lemma digit_is_word: "is_digit U c \<Longrightarrow> is_word U c"
  by (auto simp: is_digit_def is_word_def split: if_splits)

lemma space_not_word: "is_space c \<Longrightarrow> \<not> is_word U c"
  by (auto simp: is_space_def is_word_def)

lemma space_not_digit: "is_space c \<Longrightarrow> \<not> is_digit U c"
  by (auto simp: is_space_def is_digit_def)

lemma star_greedy_class:
  "(p', s') \<in> set (star_greedy U k p s) \<Longrightarrow>
     \<exists>u. s = u @ s' \<and> p' = advance p u \<and> (\<forall>c\<in>set u. in_class U k c)"
proof (induction s arbitrary: p)
  case Nil
  then show ?case by simp
next
  case (Cons c cs)
  from Cons.prems consider "(p', s') = (p, c # cs)"
    | "in_class U k c" "(p', s') \<in> set (star_greedy U k (Some c) cs)"
    by (auto split: if_splits)
  then show ?case
  proof cases
    case 1
    then have "c # cs = [] @ s' \<and> p' = advance p [] \<and> (\<forall>x\<in>set []. in_class U k x)" by simp
    then show ?thesis by blast
  next
    case 2
    from Cons.IH [OF 2(2)] obtain u where
      "cs = u @ s'" "p' = advance (Some c) u" "\<forall>x\<in>set u. in_class U k x"
      by blast
    with 2(1) have
      "c # cs = (c # u) @ s' \<and> p' = advance p (c # u) \<and> (\<forall>x\<in>set (c # u). in_class U k x)"
      by (simp add: advance_Cons)
    then show ?thesis by blast
  qed
qed

lemma star_greedy_mem:
  "\<forall>c\<in>set u. in_class U k c \<Longrightarrow> (advance p u, s') \<in> set (star_greedy U k p (u @ s'))"
proof (induction u arbitrary: p)
  case Nil
  show ?case by (cases s') simp_all
next
  case (Cons c u)
  from Cons.prems have "in_class U k c" "\<forall>x\<in>set u. in_class U k x" by simp_all
  with Cons.IH [of "Some c"] show ?case
    by (simp add: advance_Cons)
qed

lemma star_greedy_nonempty: "star_greedy U k p s \<noteq> []"
  by (cases s) simp_all

lemma rmatch_seq_Cons:
  "set (rmatch U (seq (r # rs)) st) = (\<Union>m\<in>set (rmatch U r st). set (rmatch U (seq rs) m))"
  by (simp add: seq_def)

lemma rmatch_seq_Nil: "rmatch U (seq []) st = [st]"
  by (simp add: seq_def)

lemma wordb_mem:
  "m \<in> set (rmatch U WordB (p, s, g)) \<longleftrightarrow> m = (p, s, g) \<and> word_before U p \<noteq> word_after U s"
  by auto

lemma group_mem:
  "m \<in> set (rmatch U (Group n r) (p, s, g)) \<longleftrightarrow>
     (\<exists>p' s' g'. m = (p', s', (n, take (length s - length s') s) # g')
        \<and> (p', s', g') \<in> set (rmatch U r (p, s, g)))"
  by (auto simp: image_iff) force

lemma star_mem:
  "m \<in> set (rmatch U (Star k) (p, s, g)) \<Longrightarrow>
     \<exists>u s'. m = (advance p u, s', g) \<and> s = u @ s' \<and> (\<forall>c\<in>set u. in_class U k c)"
  by (auto dest: star_greedy_class)

lemma star_mem_zero: "(p, s, g) \<in> set (rmatch U (Star k) (p, s, g))"
  using star_greedy_mem [of "[]" U k p s] by (simp add: image_iff) force

lemma plus_mem:
  assumes "m \<in> set (rmatch U (plus k) (p, s, g))"
  shows "\<exists>u s'. m = (Some (last u), s', g) \<and> u \<noteq> [] \<and> s = u @ s'
           \<and> (\<forall>c\<in>set u. in_class U k c)"
proof (cases s)
  case Nil
  with assms show ?thesis by (simp add: plus_def)
next
  case (Cons c cs)
  with assms have c: "in_class U k c" and "m \<in> set (rmatch U (Star k) (Some c, cs, g))"
    by (auto simp: plus_def split: if_splits)
  from star_mem [OF this(2)] obtain v s' where
    v: "m = (advance (Some c) v, s', g)" "cs = v @ s'" "\<forall>x\<in>set v. in_class U k x"
    by blast
  with c Cons have "m = (Some (last (c # v)), s', g) \<and> c # v \<noteq> [] \<and> s = (c # v) @ s'
      \<and> (\<forall>x\<in>set (c # v). in_class U k x)"
    by (simp add: advance_def)
  then show ?thesis by blast
qed

lemma plus_mem_all:
  assumes "u \<noteq> []" and "\<forall>c\<in>set u. in_class U k c"
  shows "(Some (last u), s', g) \<in> set (rmatch U (plus k) (p, u @ s', g))"
proof (cases u)
  case Nil
  with assms show ?thesis by simp
next
  case (Cons c v)
  with assms have c: "in_class U k c" and v: "\<forall>x\<in>set v. in_class U k x" by simp_all
  from star_greedy_mem [OF v, of "Some c" s']
  have "(advance (Some c) v, s') \<in> set (star_greedy U k (Some c) (v @ s'))" .
  moreover have "advance (Some c) v = Some (last (c # v))" by (simp add: advance_def)
  ultimately show ?thesis
    using c Cons by (simp add: plus_def image_iff) force
qed

lemma word_after_Cons: "word_after U (c # cs) = is_word U c"
  by (simp add: word_after_def)

lemma word_after_append: "a \<noteq> [] \<Longrightarrow> word_after U (a @ b) = is_word U (hd a)"
  by (cases a) (simp_all add: word_after_def)

lemma word_before_Some: "word_before U (Some c) = is_word U c"
  by (simp add: word_before_def)

lemma units_shape:
  assumes m: "(p', s', g') \<in> set (rmatch U re_units (p, s, []))"
  shows "\<exists>ds ws u. s = ds @ ws @ u @ s' \<and> ds \<noteq> [] \<and> (\<forall>c\<in>set ds. is_digit U c)
           \<and> (\<forall>c\<in>set ws. is_space c) \<and> u \<in> set unit_words \<and> \<not> word_after U s'
           \<and> \<not> word_before U p \<and> p' = Some (last u) \<and> g' = [(2, u), (1, ds)]"
proof -
  from m obtain m1 m2 m3 m4 where
    a1: "m1 \<in> set (rmatch U WordB (p, s, []))" and
    a2: "m2 \<in> set (rmatch U (Group 1 (plus Digit)) m1)" and
    a3: "m3 \<in> set (rmatch U (Star Space) m2)" and
    a4: "m4 \<in> set (rmatch U (Group 2 units_re) m3)" and
    a5: "(p', s', g') \<in> set (rmatch U WordB m4)"
    unfolding re_units_alt rmatch_seq_Cons rmatch_seq_Nil
    by (auto simp del: rmatch.simps)
  from a1 have m1: "m1 = (p, s, [])" and wb: "word_before U p \<noteq> word_after U s"
    unfolding wordb_mem by simp_all
  from a2 [unfolded m1 group_mem] obtain p2 s2 g2 where
    m2: "m2 = (p2, s2, (1, take (length s - length s2) s) # g2)" and
    b2: "(p2, s2, g2) \<in> set (rmatch U (plus Digit) (p, s, []))"
    by blast
  from plus_mem [OF b2] obtain ds where
    ds: "p2 = Some (last ds)" "g2 = []" "ds \<noteq> []" "s = ds @ s2" "\<forall>c\<in>set ds. is_digit U c"
    by auto
  from ds have t1: "take (length s - length s2) s = ds" by simp
  from star_mem [OF a3 [unfolded m2]] obtain ws s3 where
    m3: "m3 = (advance p2 ws, s3, (1, take (length s - length s2) s) # g2)" and
    ws: "s2 = ws @ s3" "\<forall>c\<in>set ws. is_space c"
    by auto
  from a4 [unfolded m3 group_mem] obtain p4 s4 g4 where
    m4: "m4 = (p4, s4, (2, take (length s3 - length s4) s3) # g4)" and
    b4: "(p4, s4, g4) \<in> set (rmatch U units_re
           (advance p2 ws, s3, (1, take (length s - length s2) s) # g2))"
    by blast
  from units_outcome [OF b4] obtain u where
    u: "u \<in> set unit_words" "s3 = u @ s4" "p4 = Some (last u)"
       "g4 = (1, take (length s - length s2) s) # g2"
    by blast
  from u have t2: "take (length s3 - length s4) s3 = u" by simp
  from a5 [unfolded m4 wordb_mem] have
    e: "p' = p4" "s' = s4" "g' = (2, take (length s3 - length s4) s3) # g4" and
    wa: "word_before U p4 \<noteq> word_after U s4"
    by simp_all
  from u(1) have "u \<noteq> []" by (rule unit_word_nonempty)
  then have "last u \<in> set u" by simp
  with unit_word_chars [OF u(1)] have "is_word U (last u)" by blast
  with wa u(3) e have nwa: "\<not> word_after U s'" by (simp add: word_before_Some)
  from ds have "is_digit U (hd ds)" by (cases ds) simp_all
  then have "is_word U (hd ds)" by (rule digit_is_word)
  with ds have "word_after U s" by (simp add: word_after_append)
  with wb have nwb: "\<not> word_before U p" by simp
  from ds ws u e t1 t2 nwa nwb
  have "s = ds @ ws @ u @ s' \<and> ds \<noteq> [] \<and> (\<forall>c\<in>set ds. is_digit U c)
           \<and> (\<forall>c\<in>set ws. is_space c) \<and> u \<in> set unit_words \<and> \<not> word_after U s'
           \<and> \<not> word_before U p \<and> p' = Some (last u) \<and> g' = [(2, u), (1, ds)]"
    by simp
  then show ?thesis by blast
qed

lemma units_hit:
  assumes ds: "ds \<noteq> []" "\<forall>c\<in>set ds. is_digit U c"
    and u: "u \<in> set unit_words"
    and nwa: "\<not> word_after U b"
    and nwb: "\<not> word_before U p"
  shows "rmatch U re_units (p, ds @ u @ b, []) \<noteq> []"
proof -
  let ?s = "ds @ u @ b"
  from ds have "is_digit U (hd ds)" by (cases ds) simp_all
  then have "is_word U (hd ds)" by (rule digit_is_word)
  with ds nwb have w1: "(p, ?s, []) \<in> set (rmatch U WordB (p, ?s, []))"
    by (simp add: wordb_mem word_after_append)
  from plus_mem_all [of ds U Digit "u @ b" "[]" p] ds
  have "(Some (last ds), u @ b, []) \<in> set (rmatch U (plus Digit) (p, ?s, []))"
    by simp
  then have w2: "(Some (last ds), u @ b, [(1, ds)]) \<in> set (rmatch U (Group 1 (plus Digit)) (p, ?s, []))"
    unfolding group_mem by simp
  have w3: "(Some (last ds), u @ b, [(1, ds)])
      \<in> set (rmatch U (Star Space) (Some (last ds), u @ b, [(1, ds)]))"
    by (rule star_mem_zero)
  from units_match [OF u, of b "[(1, ds)]" U "Some (last ds)"]
  have w4: "(Some (last u), b, [(2, u), (1, ds)])
      \<in> set (rmatch U (Group 2 units_re) (Some (last ds), u @ b, [(1, ds)]))"
    unfolding group_mem by simp
  from u have "u \<noteq> []" by (rule unit_word_nonempty)
  then have "last u \<in> set u" by simp
  with unit_word_chars [OF u] have "is_word U (last u)" by blast
  with nwa have w5: "(Some (last u), b, [(2, u), (1, ds)])
      \<in> set (rmatch U WordB (Some (last u), b, [(2, u), (1, ds)]))"
    by (simp add: wordb_mem word_before_Some)
  from w1 w2 w3 w4 w5
  have "(Some (last u), b, [(2, u), (1, ds)]) \<in> set (rmatch U re_units (p, ?s, []))"
    unfolding re_units_alt rmatch_seq_Cons rmatch_seq_Nil
    by (auto simp del: rmatch.simps)
  then show ?thesis by auto
qed

subsection \<open>Numbers written directly before a unit\<close>

lemma takeWhile_all:
  "\<forall>c\<in>set a. P c \<Longrightarrow> b = [] \<or> \<not> P (hd b) \<Longrightarrow> takeWhile P (a @ b) = a"
  by (induction a) (auto simp: takeWhile_eq_Nil_iff)

lemma dropWhile_all:
  "\<forall>c\<in>set a. P c \<Longrightarrow> b = [] \<or> \<not> P (hd b) \<Longrightarrow> dropWhile P (a @ b) = b"
  by (induction a) (auto simp: dropWhile_eq_self_iff)

lemma takeWhile_tail:
  "\<forall>c\<in>set w. \<not> P c \<Longrightarrow> takeWhile P (m @ w) = takeWhile P m"
  by (induction m) (auto simp: takeWhile_eq_Nil_iff)

lemma word_after_hd: "word_after U b \<longleftrightarrow> b \<noteq> [] \<and> is_word U (hd b)"
  by (cases b) (simp_all add: word_after_def)

lemma tight_here_Nil: "\<not> tight_here U p []"
  by (simp add: tight_here_def)

lemma tight_here_digit: "tight_here U p (c # cs) \<Longrightarrow> is_digit U c"
  by (auto simp: tight_here_def split: if_splits)

lemma tight_here_cong:
  "word_before U p = word_before U q \<Longrightarrow>
   takeWhile (is_word U) s = takeWhile (is_word U) s' \<Longrightarrow>
   tight_here U p s = tight_here U q s'"
  by (simp add: tight_here_def)

lemma tight_cong: "word_before U p = word_before U q \<Longrightarrow> tight U p s = tight U q s"
  by (cases s) (simp_all add: tight_here_def)

lemma tight_hereI:
  assumes ds: "ds \<noteq> []" "\<forall>c\<in>set ds. is_digit U c"
    and u: "u \<in> set unit_words"
    and nwa: "\<not> word_after U b"
    and nwb: "\<not> word_before U p"
  shows "tight_here U p (ds @ u @ b)"
proof -
  from u have une: "u \<noteq> []" by (rule unit_word_nonempty)
  then have "hd u \<in> set u" by simp
  with unit_word_chars [OF u] have hd: "\<not> is_digit U (hd u)" by blast
  from ds(2) unit_word_chars [OF u] have "\<forall>c\<in>set (ds @ u). is_word U c"
    by (auto dest: digit_is_word)
  moreover from nwa have "b = [] \<or> \<not> is_word U (hd b)" by (simp add: word_after_hd)
  ultimately have "takeWhile (is_word U) ((ds @ u) @ b) = ds @ u"
    by (rule takeWhile_all)
  then have w: "takeWhile (is_word U) (ds @ u @ b) = ds @ u" by simp
  from hd have h: "u = [] \<or> \<not> is_digit U (hd u)" by simp
  from takeWhile_all [OF ds(2) h] dropWhile_all [OF ds(2) h] w ds(1) u nwb
  show ?thesis by (simp add: tight_here_def)
qed

lemma tight_hereD:
  assumes "tight_here U p s"
  shows "\<exists>ds u b. s = ds @ u @ b \<and> ds \<noteq> [] \<and> (\<forall>c\<in>set ds. is_digit U c)
           \<and> u \<in> set unit_words \<and> \<not> word_after U b \<and> \<not> word_before U p"
proof -
  let ?w = "takeWhile (is_word U) s"
  let ?ds = "takeWhile (is_digit U) ?w"
  let ?u = "dropWhile (is_digit U) ?w"
  let ?b = "dropWhile (is_word U) s"
  have "s = ?w @ ?b" by simp
  moreover have "?w = ?ds @ ?u" by simp
  ultimately have "s = ?ds @ ?u @ ?b" by (metis append.assoc)
  moreover have "\<forall>c\<in>set ?ds. is_digit U c" by (auto dest: set_takeWhileD)
  moreover have "\<not> word_after U ?b"
    unfolding word_after_hd using hd_dropWhile [of "is_word U" s] by blast
  ultimately have "s = ?ds @ ?u @ ?b \<and> ?ds \<noteq> [] \<and> (\<forall>c\<in>set ?ds. is_digit U c)
           \<and> ?u \<in> set unit_words \<and> \<not> word_after U ?b \<and> \<not> word_before U p"
    using assms by (simp add: tight_here_def)
  then show ?thesis by blast
qed

lemma tight_here_match: "tight_here U p s \<Longrightarrow> rmatch U re_units (p, s, []) \<noteq> []"
  using tight_hereD [of U p s] units_hit [of _ U _ _ p] by blast

lemma tight_skip:
  "\<forall>c\<in>set a. \<not> is_digit U c \<Longrightarrow> tight U p (a @ b) = tight U (advance p a) b"
proof (induction a arbitrary: p)
  case Nil
  show ?case by simp
next
  case (Cons c a)
  from Cons.prems have "\<not> tight_here U p (c # a @ b)"
    by (auto dest: tight_here_digit)
  with Cons.IH [of "Some c"] Cons.prems show ?case
    by (simp add: advance_Cons)
qed

lemma tight_digits:
  "\<forall>c\<in>set ds. is_digit U c \<Longrightarrow> \<not> word_after U b \<Longrightarrow>
     tight U p (ds @ b) = tight U (advance p ds) b"
proof (induction ds arbitrary: p)
  case Nil
  show ?case by simp
next
  case (Cons d ds)
  from Cons.prems(1) have w: "\<forall>c\<in>set (d # ds). is_word U c"
    by (auto dest: digit_is_word)
  from Cons.prems(2) have "b = [] \<or> \<not> is_word U (hd b)" by (simp add: word_after_hd)
  from takeWhile_all [OF w this]
  have "takeWhile (is_word U) (d # ds @ b) = d # ds" by simp
  moreover from Cons.prems(1) have "dropWhile (is_digit U) (d # ds) = []" by simp
  moreover have "[] \<notin> set unit_words" using unit_word_nonempty by blast
  ultimately have "\<not> tight_here U p (d # ds @ b)"
    by (simp add: tight_here_def)
  with Cons.IH [of "Some d"] Cons.prems show ?case
    by (simp add: advance_Cons)
qed

lemma tight_mid: "tight_here U (advance p a) b \<Longrightarrow> tight U p (a @ b)"
proof (induction a arbitrary: p)
  case Nil
  then show ?case by (cases b) (simp_all add: tight_here_Nil)
next
  case (Cons c a)
  from Cons.IH [of "Some c"] Cons.prems show ?case
    by (simp add: advance_Cons)
qed

lemma tight_tail:
  "\<forall>c\<in>set w. is_space c \<Longrightarrow> tight U p (m @ w) = tight U p m"
proof (induction m arbitrary: p)
  case Nil
  from Nil have "\<forall>c\<in>set w. \<not> is_digit U c" by (auto dest: space_not_digit)
  from tight_skip [OF this, of p "[]"] show ?case by simp
next
  case (Cons c m)
  from Cons.prems have "\<forall>x\<in>set w. \<not> is_word U x" by (auto dest: space_not_word)
  from takeWhile_tail [OF this, of "c # m"]
  have "tight_here U p (c # m @ w) = tight_here U p (c # m)"
    by (simp add: tight_here_def)
  with Cons.IH [OF Cons.prems, of "Some c"] show ?case by simp
qed

lemma advance_space:
  "\<forall>c\<in>set a. is_space c \<Longrightarrow> \<not> word_before U p \<Longrightarrow> \<not> word_before U (advance p a)"
  by (auto simp: advance_def word_before_Some dest: space_not_word)

lemma tight_lead:
  assumes "\<forall>c\<in>set a. is_space c" and "\<not> word_before U p"
  shows "tight U p (a @ b) = tight U p b"
proof -
  from assms(1) have "\<forall>c\<in>set a. \<not> is_digit U c" by (auto dest: space_not_digit)
  then have "tight U p (a @ b) = tight U (advance p a) b" by (rule tight_skip)
  also from advance_space [OF assms] assms(2) have "\<dots> = tight U p b"
    by (intro tight_cong) simp
  finally show ?thesis .
qed

subsection \<open>Runs of whitespace\<close>

lemma squeeze_word:
  "(\<And>c. P c \<Longrightarrow> is_space c) \<Longrightarrow>
     takeWhile (is_word U) (squeeze P s) = takeWhile (is_word U) s"
proof (induction P s rule: squeeze.induct)
  case (1 P)
  show ?case by simp
next
  case (2 P c cs)
  show ?case
  proof (cases "P c")
    case True
    with 2(3) have "is_space c" by blast
    then have "\<not> is_word U c" by (rule space_not_word)
    moreover have "\<not> is_word U 32" by (simp add: is_word_def)
    ultimately show ?thesis using True by simp
  next
    case False
    with 2(2) [OF False 2(3)] show ?thesis by simp
  qed
qed

lemma tight_squeeze:
  "(\<And>c. P c \<Longrightarrow> is_space c) \<Longrightarrow> tight U p (squeeze P s) \<Longrightarrow> tight U p s"
proof (induction P s arbitrary: p rule: squeeze.induct)
  case (1 P)
  then show ?case by simp
next
  case (2 P c cs)
  show ?case
  proof (cases "P c")
    case False
    from squeeze_word [of P U "c # cs"] 2(3)
    have "takeWhile (is_word U) (squeeze P (c # cs)) = takeWhile (is_word U) (c # cs)"
      by blast
    with False have "tight_here U p (c # squeeze P cs) = tight_here U p (c # cs)"
      by (simp add: tight_here_def)
    with 2(2) [OF False 2(3), of "Some c"] 2(4) False show ?thesis
      by auto
  next
    case True
    let ?ws = "takeWhile P cs"
    let ?r = "dropWhile P cs"
    have sp: "\<forall>x\<in>set (c # ?ws). is_space x"
      using True 2(3) by (auto dest: set_takeWhileD)
    then have nd: "\<forall>x\<in>set (c # ?ws). \<not> is_digit U x" by (auto dest: space_not_digit)
    have "\<not> is_digit U 32" by (simp add: is_digit_def)
    with 2(4) True have "tight U (Some 32) (squeeze P ?r)"
      by (auto dest: tight_here_digit)
    from 2(1) [OF True 2(3) this] have "tight U (Some 32) ?r" .
    moreover have "\<not> word_before U (Some 32)" by (simp add: word_before_Some is_word_def)
    moreover have "\<not> word_before U (advance p (c # ?ws))"
      using sp by (auto simp: advance_def word_before_Some dest: space_not_word)
    ultimately have "tight U (advance p (c # ?ws)) ?r"
      using tight_cong [of U "Some 32" "advance p (c # ?ws)" ?r] by simp
    with tight_skip [OF nd, of p ?r] have "tight U p ((c # ?ws) @ ?r)" by simp
    then show ?thesis by simp
  qed
qed

lemma squeeze_spaced: "spaced (squeeze is_space s)"
proof (induction "is_space" s rule: squeeze.induct)
  case 1
  show ?case by simp
next
  case (2 c cs)
  show ?case
  proof (cases "is_space c")
    case False
    with 2(2) show ?thesis by simp
  next
    case True
    let ?r = "dropWhile is_space cs"
    have "squeeze is_space ?r = [] \<or> \<not> is_space (hd (squeeze is_space ?r))"
    proof (cases ?r)
      case Nil
      show ?thesis unfolding Nil by simp
    next
      case (Cons d r)
      have "\<not> is_space d"
        using hd_dropWhile [of is_space cs] unfolding Cons by simp
      then show ?thesis unfolding Cons by simp
    qed
    with 2(1) [OF True] True show ?thesis by simp
  qed
qed

lemma spaced_fixed: "spaced s \<Longrightarrow> squeeze is_space s = s"
proof (induction s)
  case Nil
  show ?case by simp
next
  case (Cons c cs)
  show ?case
  proof (cases "is_space c")
    case False
    with Cons show ?thesis by simp
  next
    case True
    with Cons.prems have c: "c = 32" and "cs = [] \<or> \<not> is_space (hd cs)" by simp_all
    then have "dropWhile is_space cs = cs" by (cases cs) simp_all
    with Cons True c show ?thesis by simp
  qed
qed

lemma spaced_append_right: "spaced (a @ b) \<Longrightarrow> spaced b"
  by (induction a) simp_all

lemma spaced_append_left: "spaced (a @ b) \<Longrightarrow> spaced a"
proof (induction a)
  case Nil
  show ?case by simp
next
  case (Cons c a)
  then show ?case by (cases a) auto
qed

lemma spaced_space: "spaced s \<Longrightarrow> c \<in> set s \<Longrightarrow> is_space c \<Longrightarrow> c = 32"
  by (induction s) auto

lemma spaced_run:
  assumes "spaced (ws @ r)" and "\<forall>c\<in>set ws. is_space c"
  shows "ws = [] \<or> ws = [32]"
proof (cases ws)
  case Nil
  then show ?thesis by simp
next
  case (Cons c ws')
  with assms have c: "c = 32" and n: "ws' @ r = [] \<or> \<not> is_space (hd (ws' @ r))" by simp_all
  have "ws' = []"
  proof (rule ccontr)
    assume "ws' \<noteq> []"
    then have "hd (ws' @ r) = hd ws'" "hd ws' \<in> set ws'" by simp_all
    with assms(2) Cons n \<open>ws' \<noteq> []\<close> show False by auto
  qed
  with c Cons show ?thesis by simp
qed

subsection \<open>Trimming\<close>

lemma strip_parts:
  "\<exists>a w. s = a @ strip s @ w \<and> (\<forall>c\<in>set a. is_space c) \<and> (\<forall>c\<in>set w. is_space c)"
proof -
  let ?a = "takeWhile is_space s"
  let ?s1 = "dropWhile is_space s"
  let ?w = "rev (takeWhile is_space (rev ?s1))"
  have "strip s @ ?w = rev (takeWhile is_space (rev ?s1) @ dropWhile is_space (rev ?s1))"
    by (simp only: strip_def rev_append)
  also have "\<dots> = rev (rev ?s1)" by (simp only: takeWhile_dropWhile_id)
  finally have "?s1 = strip s @ ?w" by simp
  moreover have "s = ?a @ ?s1" by simp
  ultimately have "s = ?a @ strip s @ ?w" by metis
  moreover have "\<forall>c\<in>set ?a. is_space c" by (auto dest: set_takeWhileD)
  moreover have "\<forall>c\<in>set ?w. is_space c" by (auto dest: set_takeWhileD)
  ultimately show ?thesis by blast
qed

lemma strip_subset: "set (strip s) \<subseteq> set s"
  using strip_parts [of s] by (metis Un_upper1 Un_upper2 set_append subset_trans)

lemma strip_ends:
  "strip s = [] \<or> (\<not> is_space (hd (strip s)) \<and> \<not> is_space (last (strip s)))"
proof (cases "strip s = []")
  case True
  then show ?thesis by simp
next
  case False
  let ?s1 = "dropWhile is_space s"
  let ?m = "dropWhile is_space (rev ?s1)"
  from False have m: "?m \<noteq> []" by (simp add: strip_def)
  from hd_dropWhile [OF m] have "\<not> is_space (hd ?m)" .
  with m have l: "\<not> is_space (last (strip s))"
    by (simp add: strip_def last_rev)
  from strip_parts [of ?s1] obtain a w where
    aw: "?s1 = a @ strip ?s1 @ w" "\<forall>c\<in>set a. is_space c" by blast
  have e: "strip ?s1 = strip s" by (simp add: strip_def)
  from m have s1: "?s1 \<noteq> []" by (metis dropWhile.simps(1) rev.simps(1))
  from hd_dropWhile [OF s1] have h: "\<not> is_space (hd ?s1)" .
  have "a = []"
  proof (rule ccontr)
    assume "a \<noteq> []"
    with aw(1) have "hd ?s1 = hd a" "hd a \<in> set a"
      by (metis hd_append2, simp)
    with aw(2) h show False by auto
  qed
  with aw(1) e False have "hd ?s1 = hd (strip s)" by (metis append_Nil hd_append2)
  with h l show ?thesis by simp
qed

lemma strip_fixed:
  assumes "s = [] \<or> (\<not> is_space (hd s) \<and> \<not> is_space (last s))"
  shows "strip s = s"
proof (cases s)
  case Nil
  then show ?thesis by (simp add: strip_def)
next
  case (Cons c cs)
  with assms have h: "\<not> is_space (hd s)" and l: "\<not> is_space (last s)" by simp_all
  from h Cons have d: "dropWhile is_space s = s" by simp
  from Cons have "rev s \<noteq> []" by simp
  moreover from l Cons have "\<not> is_space (hd (rev s))" by (metis hd_rev list.distinct(1))
  ultimately have "dropWhile is_space (rev s) = rev s" by (cases "rev s") simp_all
  with d show ?thesis by (simp add: strip_def)
qed

lemma strip_strip: "strip (strip s) = strip s"
  using strip_ends [of s] by (rule strip_fixed)

lemma spaced_strip: "spaced s \<Longrightarrow> spaced (strip s)"
  using strip_parts [of s] by (metis spaced_append_left spaced_append_right)

lemma tight_strip: "tight U None (strip s) \<Longrightarrow> tight U None s"
proof -
  assume t: "tight U None (strip s)"
  from strip_parts [of s] obtain a w where
    aw: "s = a @ strip s @ w" "\<forall>c\<in>set a. is_space c" "\<forall>c\<in>set w. is_space c" by blast
  from t tight_tail [OF aw(3), of U None "strip s"] have "tight U None (strip s @ w)" by simp
  with tight_lead [OF aw(2), of U None "strip s @ w"] have "tight U None (a @ strip s @ w)"
    by (simp add: word_before_def)
  with aw(1) show ?thesis by simp
qed

subsection \<open>The rule for units\<close>

lemma units_None_word: "word_before U p \<Longrightarrow> re_match U re_units p s = None"
proof (cases "re_match U re_units p s")
  case None
  then show ?thesis .
next
  case (Some m)
  assume w: "word_before U p"
  obtain p' s' g' where "m = (p', s', g')" by (cases m)
  with Some have "(p', s', g') \<in> set (rmatch U re_units (p, s, []))"
    by (simp add: re_match_Some)
  from units_shape [OF this] w show ?thesis by blast
qed

lemma units_None_Nil: "re_match U re_units p [] = None"
proof (cases "re_match U re_units p []")
  case None
  then show ?thesis .
next
  case (Some m)
  obtain p' s' g' where "m = (p', s', g')" by (cases m)
  with Some have "(p', s', g') \<in> set (rmatch U re_units (p, [], []))"
    by (simp add: re_match_Some)
  from units_shape [OF this] show ?thesis by simp
qed

lemma units_copy_word:
  "word_before U q \<Longrightarrow>
     takeWhile (is_word U) (re_sub_from U re_units t q s) = takeWhile (is_word U) s"
proof (induction s arbitrary: q)
  case Nil
  show ?case by (simp add: units_None_Nil)
next
  case (Cons c cs)
  from Cons.prems have n: "re_match U re_units q (c # cs) = None"
    by (rule units_None_word)
  show ?case
  proof (cases "is_word U c")
    case True
    then have "word_before U (Some c)" by (simp add: word_before_Some)
    from Cons.IH [OF this] n True show ?thesis by simp
  next
    case False
    with n show ?thesis by simp
  qed
qed

lemma units_copy_None:
  assumes "re_match U re_units p s = None"
  shows "takeWhile (is_word U) (re_sub_from U re_units t p s) = takeWhile (is_word U) s"
proof (cases s)
  case Nil
  with assms show ?thesis by simp
next
  case (Cons c cs)
  show ?thesis
  proof (cases "is_word U c")
    case True
    then have "word_before U (Some c)" by (simp add: word_before_Some)
    from units_copy_word [OF this, of t cs] assms Cons True show ?thesis by simp
  next
    case False
    with assms Cons show ?thesis by simp
  qed
qed

lemma units_expand: "expand [Ref 1, Txt [32], Ref 2] [(2, u), (1, ds)] = ds @ [32] @ u"
  by (simp add: expand_def)

lemma units_no_tight: "\<not> tight U p (re_sub_from U re_units [Ref 1, Txt [32], Ref 2] p s)"
proof (induction "length s" arbitrary: s p rule: less_induct)
  case less
  let ?t = "[Ref 1, Txt [32], Ref 2]"
  show ?case
  proof (cases s)
    case Nil
    then show ?thesis by (simp add: units_None_Nil)
  next
    case (Cons c cs)
    show ?thesis
    proof (cases "re_match U re_units p (c # cs)")
      case None
      have "\<not> tight_here U p (c # cs)"
      proof
        assume "tight_here U p (c # cs)"
        then have "rmatch U re_units (p, c # cs, []) \<noteq> []" by (rule tight_here_match)
        with None show False by (simp add: re_match_def split: list.splits)
      qed
      moreover from units_copy_None [OF None, of ?t]
      have "tight_here U p (re_sub_from U re_units ?t p (c # cs)) = tight_here U p (c # cs)"
        by (intro tight_here_cong) simp_all
      moreover from less [of cs "Some c"] Cons
      have "\<not> tight U (Some c) (re_sub_from U re_units ?t (Some c) cs)" by simp
      ultimately show ?thesis using None Cons by simp
    next
      case (Some m)
      obtain p' s' g' where m: "m = (p', s', g')" by (cases m)
      with Some have "(p', s', g') \<in> set (rmatch U re_units (p, c # cs, []))"
        by (simp add: re_match_Some)
      from units_shape [OF this] obtain ds ws u where
        sh: "c # cs = ds @ ws @ u @ s'" "ds \<noteq> []" "\<forall>c\<in>set ds. is_digit U c"
            "u \<in> set unit_words" "p' = Some (last u)" "g' = [(2, u), (1, ds)]"
        by blast
      from sh(1) have "length (c # cs) = length ds + length ws + length u + length s'"
        by (metis length_append add.assoc)
      with sh(2) have len: "length s' < Suc (length cs)"
        by (cases ds) simp_all
      let ?F = "re_sub_from U re_units ?t p' s'"
      from Some m len sh(6) have
        e: "re_sub_from U re_units ?t p (c # cs) = ds @ (32 # u) @ ?F"
        by (simp add: expand_def)
      from less [of s' p'] Cons len have nt: "\<not> tight U p' ?F" by simp
      have "\<not> is_word U 32" by (simp add: is_word_def)
      then have "\<not> word_after U ((32 # u) @ ?F)" by (simp add: word_after_Cons)
      from tight_digits [OF sh(3) this, of p]
      have "tight U p (ds @ (32 # u) @ ?F) = tight U (advance p ds) ((32 # u) @ ?F)" .
      also have "\<dots> = tight U (advance (advance p ds) (32 # u)) ?F"
      proof (rule tight_skip)
        have "\<not> is_digit U 32" by (simp add: is_digit_def)
        with unit_word_chars [OF sh(4)] show "\<forall>c\<in>set (32 # u). \<not> is_digit U c" by auto
      qed
      also from unit_word_nonempty [OF sh(4)] sh(5)
      have "advance (advance p ds) (32 # u) = p'" by (simp add: advance_def)
      finally show ?thesis using nt e Cons by simp
    qed
  qed
qed

lemma units_fixed:
  assumes sp: "spaced y" and nt: "\<not> tight U None y"
  shows "re_sub_from U re_units [Ref 1, Txt [32], Ref 2] None y = y"
proof (rule re_sub_fixed)
  fix a b p' s' g
  assume y: "y = a @ b"
    and m: "re_match U re_units (advance None a) b = Some (p', s', g)"
  from re_match_Some [OF m] units_shape [of p' s' g U "advance None a" b]
  obtain ds ws u where
    sh: "b = ds @ ws @ u @ s'" "ds \<noteq> []" "\<forall>c\<in>set ds. is_digit U c" "\<forall>c\<in>set ws. is_space c"
        "u \<in> set unit_words" "\<not> word_after U s'" "\<not> word_before U (advance None a)"
        "g = [(2, u), (1, ds)]"
    by blast
  from sp y sh(1) have "spaced ((a @ ds) @ ws @ u @ s')" by simp
  then have "spaced (ws @ u @ s')" by (rule spaced_append_right)
  from spaced_run [OF this sh(4)] have "ws = [32]"
  proof
    assume "ws = []"
    with sh(1) tight_hereI [OF sh(2) sh(3) sh(5) sh(6) sh(7)]
    have "tight_here U (advance None a) b" by simp
    then have "tight U None (a @ b)" by (rule tight_mid)
    with nt y show ?thesis by simp
  qed
  with sh(1) sh(8) have "expand [Ref 1, Txt [32], Ref 2] g @ s' = b"
    by (simp add: expand_def)
  moreover from sh(1) sh(2) have "s' \<noteq> b"
    by (metis append_self_conv2 append_assoc append_is_Nil_conv)
  ultimately show "expand [Ref 1, Txt [32], Ref 2] g @ s' = b \<and> s' \<noteq> b" by simp
qed

lemma slash_hit: "rmatch U re_slash (p, 47 # cs, []) \<noteq> []"
  by (simp add: re_slash_def lit_def seq_def)

lemma hyphen_hit: "rmatch U re_hyphen (p, 45 # cs, []) \<noteq> []"
proof -
  have "\<not> is_space 45" by (simp add: is_space_def)
  then have "rmatch U (Star Space) (p, 45 # cs, []) = [(p, 45 # cs, [])]" by simp
  moreover have "rmatch U (lit ''-'') (p, 45 # cs, []) = [(Some 45, cs, [])]"
    by (simp add: lit_def seq_def)
  moreover have "(Some 45, cs, []) \<in> set (rmatch U (Star Space) (Some 45, cs, []))"
    by (rule star_mem_zero)
  ultimately have "(Some 45, cs, []) \<in> set (rmatch U re_hyphen (p, 45 # cs, []))"
    unfolding re_hyphen_def rmatch_seq_Cons rmatch_seq_Nil
    by (simp del: rmatch.simps)
  then show ?thesis by auto
qed

subsection \<open>The output of a pass, and a pass over it\<close>

lemma clean_tail:
  "\<exists>z. clean_response_for_speech U x =
     strip (re_sub U re_spaces [Txt (ascii '' '')]
       (re_sub U re_newlines [Txt (ascii '' '')]
         (re_sub U re_percent [Ref 1, Txt (ascii '' percent'')]
           (re_sub U re_units [Ref 1, Txt (ascii '' ''), Ref 2]
             (re_sub U re_hyphen [Txt (ascii '' '')]
               (re_sub U re_slash [Txt (ascii '' or '')]
                 (re_sub U re_slash_ws [Txt (ascii '' or '')]
                   (re_sub U (Atom punct_set) []
                     (re_sub U (Atom symbol_set) [] z)))))))))"
  unfolding clean_response_for_speech_def Let_def by (rule exI) (rule refl)

lemma ascii_space: "ascii '' '' = [32]"
  by (simp add: ascii_def)

lemma clean_output:
  fixes U x
  defines "y \<equiv> clean_response_for_speech U x"
  shows "(\<forall>c\<in>set y. \<not> (in_class U symbol_set c \<or> in_class U punct_set c \<or> c = 47 \<or> c = 45))
    \<and> spaced y \<and> \<not> tight U None y \<and> strip y = y"
proof -
  from clean_tail [of U x] obtain z where
    c: "clean_response_for_speech U x =
     strip (re_sub U re_spaces [Txt (ascii '' '')]
       (re_sub U re_newlines [Txt (ascii '' '')]
         (re_sub U re_percent [Ref 1, Txt (ascii '' percent'')]
           (re_sub U re_units [Ref 1, Txt (ascii '' ''), Ref 2]
             (re_sub U re_hyphen [Txt (ascii '' '')]
               (re_sub U re_slash [Txt (ascii '' or '')]
                 (re_sub U re_slash_ws [Txt (ascii '' or '')]
                   (re_sub U (Atom punct_set) []
                     (re_sub U (Atom symbol_set) [] z)))))))))"
    by blast
  define t12 where "t12 = re_sub U (Atom symbol_set) [] z"
  define t13 where "t13 = re_sub U (Atom punct_set) [] t12"
  define t14 where "t14 = re_sub U re_slash_ws [Txt (ascii '' or '')] t13"
  define t15 where "t15 = re_sub U re_slash [Txt (ascii '' or '')] t14"
  define t16 where "t16 = re_sub U re_hyphen [Txt (ascii '' '')] t15"
  define t17 where "t17 = re_sub U re_units [Ref 1, Txt (ascii '' ''), Ref 2] t16"
  define t18 where "t18 = re_sub U re_percent [Ref 1, Txt (ascii '' percent'')] t17"
  define t19 where "t19 = re_sub U re_newlines [Txt (ascii '' '')] t18"
  define t20 where "t20 = re_sub U re_spaces [Txt (ascii '' '')] t19"
  have y: "y = strip t20"
    unfolding y_def c t20_def t19_def t18_def t17_def t16_def t15_def t14_def t13_def t12_def ..
  have g12: "\<forall>c\<in>set t12. \<not> in_class U symbol_set c"
    unfolding t12_def re_sub_def re_sub_delete by simp
  have g13: "\<forall>c\<in>set t13. \<not> (in_class U symbol_set c \<or> in_class U punct_set c)"
    unfolding t13_def re_sub_def re_sub_delete using g12 by simp
  have g14: "\<forall>c\<in>set t14. \<not> (in_class U symbol_set c \<or> in_class U punct_set c)"
    unfolding t14_def re_sub_def
    by (rule re_sub_keeps_absent [OF g13])
       (simp add: tchars_def ascii_def symbol_set_def punct_set_def)
  have g15: "\<forall>c\<in>set t15. \<not> (in_class U symbol_set c \<or> in_class U punct_set c)"
    unfolding t15_def re_sub_def
    by (rule re_sub_keeps_absent [OF g14])
       (simp add: tchars_def ascii_def symbol_set_def punct_set_def)
  have n15: "\<forall>c\<in>set t15. \<not> c = 47"
    unfolding t15_def re_sub_def
  proof (rule re_sub_consumes)
    fix p c cs
    assume "c = (47::nat)"
    then show "rmatch U re_slash (p, c # cs, []) \<noteq> []" by (simp add: slash_hit)
  next
    show "needs U re_slash (\<lambda>c. True)" by (simp add: re_slash_def lit_def seq_def)
  next
    fix g c
    assume "c \<in> set (expand [Txt (ascii '' or '')] g)"
    then show "\<not> c = 47" by (auto simp: expand_def ascii_def)
  qed
  from g15 n15 have h15:
    "\<forall>c\<in>set t15. \<not> (in_class U symbol_set c \<or> in_class U punct_set c \<or> c = 47)"
    by blast
  have h16: "\<forall>c\<in>set t16. \<not> (in_class U symbol_set c \<or> in_class U punct_set c \<or> c = 47)"
    unfolding t16_def re_sub_def
    by (rule re_sub_keeps_absent [OF h15])
       (simp add: tchars_def ascii_def symbol_set_def punct_set_def)
  have n16: "\<forall>c\<in>set t16. \<not> c = 45"
    unfolding t16_def re_sub_def
  proof (rule re_sub_consumes)
    fix p c cs
    assume "c = (45::nat)"
    then show "rmatch U re_hyphen (p, c # cs, []) \<noteq> []" by (simp add: hyphen_hit)
  next
    show "needs U re_hyphen (\<lambda>c. True)" by (simp add: re_hyphen_def lit_def seq_def)
  next
    fix g c
    assume "c \<in> set (expand [Txt (ascii '' '')] g)"
    then show "\<not> c = 45" by (auto simp: expand_def ascii_def)
  qed
  from h16 n16 have k16:
    "\<forall>c\<in>set t16. \<not> (in_class U symbol_set c \<or> in_class U punct_set c \<or> c = 47 \<or> c = 45)"
    by blast
  have k17: "\<forall>c\<in>set t17. \<not> (in_class U symbol_set c \<or> in_class U punct_set c \<or> c = 47 \<or> c = 45)"
    unfolding t17_def re_sub_def
    by (rule re_sub_keeps_absent [OF k16])
       (simp add: tchars_def ascii_def symbol_set_def punct_set_def)
  have "in_class U symbol_set 37" by (simp add: symbol_set_def ascii_def)
  with k17 have "\<forall>c\<in>set t17. \<not> c = 37" by blast
  moreover have "needs U re_percent (\<lambda>c. c = 37)"
    by (simp add: re_percent_def seq_def lit_def)
  ultimately have e18: "t18 = t17"
    unfolding t18_def re_sub_def by (intro re_sub_unchanged)
  have k19: "\<forall>c\<in>set t19. \<not> (in_class U symbol_set c \<or> in_class U punct_set c \<or> c = 47 \<or> c = 45)"
    unfolding t19_def re_sub_def e18
    by (rule re_sub_keeps_absent [OF k17])
       (simp add: tchars_def ascii_def symbol_set_def punct_set_def)
  have k20: "\<forall>c\<in>set t20. \<not> (in_class U symbol_set c \<or> in_class U punct_set c \<or> c = 47 \<or> c = 45)"
    unfolding t20_def re_sub_def
    by (rule re_sub_keeps_absent [OF k19])
       (simp add: tchars_def ascii_def symbol_set_def punct_set_def)
  from k20 strip_subset [of t20] y
  have marks: "\<forall>c\<in>set y. \<not> (in_class U symbol_set c \<or> in_class U punct_set c \<or> c = 47 \<or> c = 45)"
    by blast
  have l10: "in_class U (Lit 10) = (\<lambda>c. c = 10)" by (rule ext) simp
  have lsp: "in_class U Space = is_space" by (rule ext) simp
  have e19: "t19 = squeeze (\<lambda>c. c = 10) t18"
    unfolding t19_def re_sub_def re_newlines_def ascii_space re_sub_squeeze l10 ..
  have e20: "t20 = squeeze is_space t19"
    unfolding t20_def re_sub_def re_spaces_def ascii_space re_sub_squeeze lsp ..
  have "spaced t20" unfolding e20 by (rule squeeze_spaced)
  then have sp: "spaced y" unfolding y by (rule spaced_strip)
  have nt17: "\<not> tight U None t17"
    unfolding t17_def re_sub_def ascii_space by (rule units_no_tight)
  have nt19: "\<not> tight U None t19"
  proof
    assume "tight U None t19"
    then have "tight U None (squeeze (\<lambda>c. c = 10) t18)" by (simp only: e19)
    then have "tight U None t18"
      by (rule tight_squeeze [rotated]) (simp add: is_space_def)
    with nt17 e18 show False by simp
  qed
  have nt20: "\<not> tight U None t20"
  proof
    assume "tight U None t20"
    then have "tight U None (squeeze is_space t19)" by (simp only: e20)
    then have "tight U None t19"
      by (rule tight_squeeze [rotated])
    with nt19 show False by simp
  qed
  have nt: "\<not> tight U None y"
    unfolding y using nt20 tight_strip by blast
  have st: "strip y = y" unfolding y by (rule strip_strip)
  from marks sp nt st show ?thesis by blast
qed

lemma re_sub_unmarked: "needs U r P \<Longrightarrow> \<forall>c\<in>set y. \<not> P c \<Longrightarrow> re_sub U r t y = y"
  unfolding re_sub_def by (rule re_sub_unchanged)

lemma clean_fixed:
  assumes marks: "\<forall>c\<in>set y. \<not> (in_class U symbol_set c \<or> in_class U punct_set c \<or> c = 47 \<or> c = 45)"
    and md: "\<forall>c\<in>set y. c \<notin> {42, 95, 8226}"
    and sp: "spaced y"
    and nt: "\<not> tight U None y"
    and st: "strip y = y"
  shows "clean_response_for_speech U y = y"
proof -
  define P where
    "P = (\<lambda>c. in_class U symbol_set c \<or> in_class U punct_set c \<or> c \<in> {47, 45, 42, 95, 8226, 10})"
  have "is_space 10" by (simp add: is_space_def)
  with spaced_space [OF sp] have "\<forall>c\<in>set y. c \<noteq> 10" by fastforce
  with marks md have np: "\<forall>c\<in>set y. \<not> P c"
    unfolding P_def by blast
  have sym: "P 96" "P 37" by (simp_all add: P_def symbol_set_def ascii_def)
  have pun: "P 46" "P 58" "P 43" by (simp_all add: P_def punct_set_def ascii_def)
  have oth: "P 42" "P 95" "P 8226" "P 10" "P 47" "P 45" by (simp_all add: P_def)
  have s1: "re_sub U re_bold [Ref 1] y = y"
    by (rule re_sub_unmarked [OF _ np]) (simp add: re_bold_def seq_def lit_def oth)
  have s2: "re_sub U re_italic [Ref 1] y = y"
    by (rule re_sub_unmarked [OF _ np]) (simp add: re_italic_def seq_def lit_def oth)
  have s3: "re_sub U re_underline [Ref 1] y = y"
    by (rule re_sub_unmarked [OF _ np]) (simp add: re_underline_def seq_def lit_def oth)
  have s4: "re_sub U re_code [Ref 1] y = y"
    by (rule re_sub_unmarked [OF _ np]) (simp add: re_code_def seq_def sym)
  have s5: "re_sub U re_numbered_nl [Txt (ascii ''. Next, '')] y = y"
    by (rule re_sub_unmarked [OF _ np]) (simp add: re_numbered_nl_def seq_def oth)
  have s6: "re_sub U re_numbered_start [Txt (ascii ''First, '')] y = y"
    by (rule re_sub_unmarked [OF _ np]) (simp add: re_numbered_start_def seq_def lit_def pun)
  have s7: "re_sub U re_bullet_line [] y = y"
    by (rule re_sub_unmarked [OF _ np])
       (auto simp: re_bullet_line_def bullet_marks_def seq_def oth pun)
  have s8: "re_sub U re_bullet_nl [Txt (ascii ''. Also, '')] y = y"
    by (rule re_sub_unmarked [OF _ np]) (simp add: re_bullet_nl_def seq_def oth)
  have s9: "re_sub U re_note [Txt (ascii ''Please note that '')] y = y"
    by (rule re_sub_unmarked [OF _ np]) (simp add: re_note_def seq_def lit_def pun)
  have s10: "re_sub U re_important [Txt (ascii ''This is important: '')] y = y"
    by (rule re_sub_unmarked [OF _ np]) (simp add: re_important_def seq_def lit_def pun)
  have s11: "re_sub U re_remember [Txt (ascii ''Remember that '')] y = y"
    by (rule re_sub_unmarked [OF _ np]) (simp add: re_remember_def seq_def lit_def pun)
  have s12: "re_sub U (Atom symbol_set) [] y = y"
    by (rule re_sub_unmarked [OF _ np]) (simp add: P_def)
  have s13: "re_sub U (Atom punct_set) [] y = y"
    by (rule re_sub_unmarked [OF _ np]) (simp add: P_def)
  have s14: "re_sub U re_slash_ws [Txt (ascii '' or '')] y = y"
    by (rule re_sub_unmarked [OF _ np]) (simp add: re_slash_ws_def seq_def lit_def oth)
  have s15: "re_sub U re_slash [Txt (ascii '' or '')] y = y"
    by (rule re_sub_unmarked [OF _ np]) (simp add: re_slash_def seq_def lit_def oth)
  have s16: "re_sub U re_hyphen [Txt (ascii '' '')] y = y"
    by (rule re_sub_unmarked [OF _ np]) (simp add: re_hyphen_def seq_def lit_def oth)
  have s17: "re_sub U re_units [Ref 1, Txt (ascii '' ''), Ref 2] y = y"
    unfolding re_sub_def ascii_space by (rule units_fixed [OF sp nt])
  have s18: "re_sub U re_percent [Ref 1, Txt (ascii '' percent'')] y = y"
    by (rule re_sub_unmarked [OF _ np]) (simp add: re_percent_def seq_def lit_def sym)
  have s19: "re_sub U re_newlines [Txt (ascii '' '')] y = y"
    by (rule re_sub_unmarked [OF _ np]) (simp add: re_newlines_def plus_def oth)
  have lsp: "in_class U Space = is_space" by (rule ext) simp
  have s20: "re_sub U re_spaces [Txt (ascii '' '')] y = y"
    unfolding re_sub_def re_spaces_def ascii_space re_sub_squeeze lsp
    by (rule spaced_fixed [OF sp])
  show ?thesis
    unfolding clean_response_for_speech_def Let_def
    by (simp only: s1 s2 s3 s4 s5 s6 s7 s8 s9 s10 s11 s12 s13 s14 s15 s16 s17 s18 s19 s20 st)
qed

lemma library_hours:
  "clean_response_for_speech U (ascii ''Library: open 24/7 - 5hours'')
     = ascii ''Library open 24 or 7 5 hours''"
  by (simp add: clean_defs)

text \<open>
  Claim C1, amended. The result of a pass contains no newline, no slash, no hyphen and
  none of the symbols and punctuation marks that the pass removes (among them the
  percent sign, the backquote, the colon and the full stop). When it also contains no
  asterisk, no underscore and no bullet (U+2022), a second pass returns it unchanged:
  applying the cleaning twice gives the same text as applying it once. (Asterisks,
  underscores and bullets can survive a pass, and then a second pass may remove them.)
\<close>

theorem cleaning_twice_without_marks:
  "(\<forall>c\<in>set (clean_response_for_speech U x).
       c \<noteq> 10 \<and> c \<noteq> 47 \<and> c \<noteq> 45 \<and> \<not> in_class U symbol_set c \<and> \<not> in_class U punct_set c)
   \<and> ((\<forall>c\<in>set (clean_response_for_speech U x). c \<notin> {42, 95, 8226}) \<longrightarrow>
        clean_response_for_speech U (clean_response_for_speech U x)
          = clean_response_for_speech U x)"
proof -
  let ?y = "clean_response_for_speech U x"
  from clean_output [of U x] have
    marks: "\<forall>c\<in>set ?y. \<not> (in_class U symbol_set c \<or> in_class U punct_set c \<or> c = 47 \<or> c = 45)"
    and sp: "spaced ?y" and nt: "\<not> tight U None ?y" and st: "strip ?y = ?y"
    by blast+
  have "is_space 10" by (simp add: is_space_def)
  with spaced_space [OF sp] have "\<forall>c\<in>set ?y. c \<noteq> 10" by fastforce
  with marks have a: "\<forall>c\<in>set ?y.
       c \<noteq> 10 \<and> c \<noteq> 47 \<and> c \<noteq> 45 \<and> \<not> in_class U symbol_set c \<and> \<not> in_class U punct_set c"
    by blast
  have b: "(\<forall>c\<in>set ?y. c \<notin> {42, 95, 8226}) \<longrightarrow> clean_response_for_speech U ?y = ?y"
    using clean_fixed [OF marks _ sp nt st] by blast
  from a b show ?thesis by blast
qed

theorem cleaning_twice_witness:
  "set (clean_response_for_speech ascii_db (ascii ''Library: open 24/7 - 5hours''))
     \<inter> {42, 95, 8226} = {}
   \<and> clean_response_for_speech ascii_db
       (clean_response_for_speech ascii_db (ascii ''Library: open 24/7 - 5hours''))
     = ascii ''Library open 24 or 7 5 hours''"
  using cleaning_twice_without_marks [of ascii_db "ascii ''Library: open 24/7 - 5hours''"]
  by (simp add: library_hours) (simp add: ascii_def)

section \<open>Facts about the confidence check\<close>

lemma dont_know_policy:
  "contains (ascii ''don't know'') (lower U (ascii ''I don't know the policy.''))"
  by (simp add: lower_def ascii_def)

lemma dont_know_capitals:
  "contains (ascii ''cannot'') (lower U (ascii ''We CANNOT say''))"
  by (simp add: lower_def ascii_def)

lemma knowledge_answer:
  "classify U query = Knowledge \<Longrightarrow> rag query = Inr raw_answer \<Longrightarrow>
     answer_with_rag U rag query
       = Inr (case assess_confidence U raw_answer of
                LowConfidence \<Rightarrow> AcknowledgeAndRedirect query
              | Confident \<Rightarrow> DirectAnswer query (clean_response_for_speech U raw_answer))"
  by (simp add: knowledge_iff answer_with_rag_def assess_confidence_def Let_def disj_ac)

text \<open>
  Claim C3. On the knowledge path, for every raw answer that retrieval returns, the
  instructions are the acknowledge-and-redirect prompt when the answer is of low
  confidence and the direct-answer prompt (with the cleaned answer) when it is
  confident, where low confidence means: the cleaned answer, trimmed, has fewer than
  15 characters, or the lower-cased raw answer contains "don't know" or "cannot".
  The raw answer "I don't know the policy." is of low confidence.
\<close>

theorem confidence_selects_prompt:
  "(classify U query = Knowledge \<longrightarrow> rag query = Inr raw_answer \<longrightarrow>
      answer_with_rag U rag query
        = Inr (case assess_confidence U raw_answer of
                 LowConfidence \<Rightarrow> AcknowledgeAndRedirect query
               | Confident \<Rightarrow> DirectAnswer query (clean_response_for_speech U raw_answer)))
   \<and> (assess_confidence U raw_answer = LowConfidence
        \<longleftrightarrow> length (strip (clean_response_for_speech U raw_answer)) < 15
            \<or> contains (ascii ''don't know'') (lower U raw_answer)
            \<or> contains (ascii ''cannot'') (lower U raw_answer))
   \<and> assess_confidence U (ascii ''I don't know the policy.'') = LowConfidence"
  by (simp add: knowledge_answer assess_confidence_def dont_know_policy)

theorem confidence_witness:
  "answer_with_rag ascii_db (\<lambda>q. Inr (ascii ''We CANNOT say''))
       (ascii ''what is the library timing'')
     = Inr (AcknowledgeAndRedirect (ascii ''what is the library timing''))"
proof -
  have "assess_confidence ascii_db (ascii ''We CANNOT say'') = LowConfidence"
    by (simp add: assess_confidence_def dont_know_capitals)
  with confidence_selects_prompt [of ascii_db "ascii ''what is the library timing''"
      "\<lambda>q. Inr (ascii ''We CANNOT say'')" "ascii ''We CANNOT say''"]
    library_timing [of ascii_db]
  show ?thesis by simp
qed

section \<open>Facts about the engine\<close>

text \<open>
  Claim C10. A query that is empty or all whitespace is answered with
  "Please ask a valid question." whatever the query engine is, and the state is left
  as it was: no call to the query engine and no log entry. Through the module's
  \<open>get_rag_answer\<close> the only change of state is the initialisation of the engine.
\<close>

theorem blank_query_answered_without_engine:
  "\<forall>c\<in>set query. is_space c \<Longrightarrow>
     engine_get_rag_answer qe self query w = (Inr (ascii ''Please ask a valid question.''), w)
     \<and> get_rag_answer splitter qe query w
       = (Inr (ascii ''Please ask a valid question.''), snd (initialize_rag_engine splitter w))"
  by (simp add: engine_get_rag_answer_def get_rag_answer_def strip_empty_iff split: prod.splits)

theorem blank_query_witness:
  "engine_get_rag_answer interrupted \<lparr>eid = 0, index = []\<rparr> [32, 9, 10] sample_world
     = (Inr (ascii ''Please ask a valid question.''), sample_world)"
  using blank_query_answered_without_engine [of "[32, 9, 10]" interrupted "\<lparr>eid = 0, index = []\<rparr>" sample_world whole_doc]
  by (simp add: is_space_def)





lemma UniversityRAGEngine_nonempty:
  "collection w \<noteq> [] \<Longrightarrow>
     UniversityRAGEngine splitter w
       = (\<lparr>eid = constructed w, index = collection w\<rparr>,
          emit [LogInfo, LogInfo, IndexFromVectorStore, QueryEngineBuilt, LogInfo]
            (w\<lparr>constructed := Suc (constructed w)\<rparr>))"
  by (simp add: UniversityRAGEngine_def emit_def)

text \<open>
  Claim C5. When the collection holds at least one item at construction, the engine
  only loads the index from the vector store: \<open>_ingest_documents\<close> is not called
  (no index is built from documents, nothing is persisted), the collection is what it
  was, and a second construction on the resulting state leaves the number of stored
  chunks unchanged.
\<close>

theorem nonempty_store_skips_ingestion:
  "collection w \<noteq> [] \<Longrightarrow>
     collection (snd (UniversityRAGEngine splitter w)) = collection w
     \<and> index (fst (UniversityRAGEngine splitter w)) = collection w
     \<and> events (snd (UniversityRAGEngine splitter w))
         = events w @ [LogInfo, LogInfo, IndexFromVectorStore, QueryEngineBuilt, LogInfo]
     \<and> length (collection (snd (UniversityRAGEngine splitter (snd (UniversityRAGEngine splitter w)))))
         = length (collection w)"
  by (simp add: UniversityRAGEngine_nonempty emit_def)

theorem nonempty_store_witness:
  "collection (snd (UniversityRAGEngine whole_doc stocked_world))
     = [ascii ''Minimum attendance required is 75 percent'']
   \<and> events (snd (UniversityRAGEngine whole_doc stocked_world))
     = [LogInfo, LogInfo, IndexFromVectorStore, QueryEngineBuilt, LogInfo]"
  using nonempty_store_skips_ingestion [of stocked_world whole_doc]
  by (simp add: stocked_world_def)


text \<open>
  The other path of \<open>_ingest_documents\<close>: with the data folder present the index is
  built from the documents and \<open>persist\<close> is called on its storage context.
\<close>

lemma present_data_dir_persisted:
  "data_dir w = Some documents \<Longrightarrow> collection w = [] \<Longrightarrow>
     events (snd (UniversityRAGEngine splitter w))
       = events w @ [LogInfo, LogInfo, LogInfo, LogInfo, IndexBuilt (length documents),
                     Persist, LogInfo, QueryEngineBuilt, LogInfo]"
  by (simp add: UniversityRAGEngine_def ingest_documents_def emit_def Let_def)









text \<open>
  Claim C8 as stated fails for the engine module: with no key in the environment its
  configuration leaves \<open>Settings.llm\<close> unset and raises nothing, and the first query
  is answered.
\<close>

theorem engine_module_serves_without_key:
  "settings_llm no_keys = None
   \<and> fst (get_rag_answer whole_doc echo (ascii ''fees'') stocked_world)
     = Inr (ascii ''Minimum attendance required is 75 percent'')"
  by (simp add: settings_llm_def no_keys_def truthy_def get_rag_answer_def
      initialize_rag_engine_def UniversityRAGEngine_def ingest_documents_def
      engine_get_rag_answer_def emit_def stocked_world_def echo_def strip_def ascii_def
      is_space_def Let_def)

text \<open>
  Claim C8, amended. With \<open>GROQ_API_KEY\<close> missing (or empty) in the environment, the
  entry point of the agent does not return: it raises before the session starts, so
  the job answers no utterance at all, whatever arrives. When the two steps that come
  before the check (the initialisation of the engine and the construction of the
  speech-to-text object) raise nothing, what is raised is \<open>ValueError\<close> with the
  message "GROQ_API_KEY not found in environment variables". The engine module itself
  raises nothing for a missing key: it leaves \<open>Settings.llm\<close> unset.
\<close>

theorem missing_groq_key_stops_agent:
  "\<not> truthy (env ''GROQ_API_KEY'') \<Longrightarrow>
     isl (entrypoint splitter libs env w)
     \<and> isl (fst (agent_job U splitter libs rag env w utterances))
     \<and> snd (agent_job U splitter libs rag env w utterances) = []
     \<and> (engine_setup libs = None \<longrightarrow> deepgram_stt libs env = None \<longrightarrow>
          entrypoint splitter libs env w
            = Inl (ValueError ''GROQ_API_KEY not found in environment variables'')
          \<and> agent_job U splitter libs rag env w utterances
            = (Inl (ValueError ''GROQ_API_KEY not found in environment variables''), []))
     \<and> settings_llm env = None"
  by (simp add: entrypoint_def agent_job_def settings_llm_def
      split: prod.splits option.splits)

theorem missing_groq_key_agent_witness:
  "\<not> truthy (groq_missing ''GROQ_API_KEY'')
   \<and> engine_setup working_libraries = None
   \<and> deepgram_stt working_libraries groq_missing = None
   \<and> agent_job ascii_db whole_doc working_libraries (\<lambda>q. Inr q) groq_missing sample_world
        [ascii ''hey there'']
     = (Inl (ValueError ''GROQ_API_KEY not found in environment variables''), [])"
  using missing_groq_key_stops_agent [of groq_missing whole_doc working_libraries sample_world
      ascii_db "\<lambda>q. Inr q" "[ascii ''hey there'']"]
  by (simp add: groq_missing_def working_libraries_def truthy_def ascii_def)

end
